theory Spec2Isabelle
  imports Main "HOL-Library.Log_Nat"
begin

section \<open>Strings\<close>

text \<open>
  URLs and context strings are modelled as \<^typ>\<open>string\<close>, one \<^typ>\<open>char\<close> per code unit;
  \<open>toLowerCase\<close> is the ASCII case mapping (every pattern the program searches for is
  lower-case ASCII, and a serialised \<open>href\<close> is ASCII).
\<close>

definition toLowerCaseChar :: "char \<Rightarrow> char" where
  "toLowerCaseChar c =
     (let n = (of_char c :: nat) in if 65 \<le> n \<and> n \<le> 90 then char_of (n + 32) else c)"

definition toLowerCase :: "string \<Rightarrow> string" where
  "toLowerCase s = map toLowerCaseChar s"

text \<open>\<open>s.startsWith(p)\<close>\<close>

fun startsWith :: "string \<Rightarrow> string \<Rightarrow> bool" where
  "startsWith s [] = True"
| "startsWith [] (p # ps) = False"
| "startsWith (c # cs) (p # ps) = (c = p \<and> startsWith cs ps)"

text \<open>\<open>s.includes(p)\<close>: \<open>p\<close> occurs in \<open>s\<close> as a contiguous substring.\<close>

fun str_includes :: "string \<Rightarrow> string \<Rightarrow> bool" where
  "str_includes [] p = (p = [])"
| "str_includes (c # cs) p = (startsWith (c # cs) p \<or> str_includes cs p)"

section \<open>Link classifier\<close>

text \<open>\<open>patterns.some(pattern => url.toLowerCase().includes(pattern))\<close>\<close>

definition affiliatePatterns :: "string list" where
  "affiliatePatterns =
     [''/api/click'', ''/track'', ''/aff'', ''/redirect'', ''/redir'', ''/goto'', ''/out'',
      ''clickid'', ''affid'', ''tid='']"

definition isAffiliateLink :: "string \<Rightarrow> bool" where
  "isAffiliateLink url = list_ex (\<lambda>pattern. str_includes (toLowerCase url) pattern) affiliatePatterns"

definition trackingPatterns :: "string list" where
  "trackingPatterns =
     [''bat.bing.com'', ''google-analytics.com'', ''googletagmanager.com'', ''facebook.com/tr'',
      ''doubleclick.net'', ''analytics.'', ''/pixel'', ''/beacon'', ''track.php'', ''collect?'']"

definition isTrackingPixel :: "string \<Rightarrow> bool" where
  "isTrackingPixel url = list_ex (\<lambda>pattern. str_includes (toLowerCase url) pattern) trackingPatterns"

text \<open>
  A verification status is a number (the HTTP status code) or one of the sentinel strings the
  verifier produces: \<open>'ERROR'\<close>, \<open>'DNS_ERROR'\<close>, \<open>'TIMEOUT'\<close>, \<open>'CONNECTION_REFUSED'\<close> and
  \<open>'Invalid'\<close> (a malformed \<open>mailto:\<close>). Strict equality \<open>===\<close> is equality of the datatype.
  A relational comparison of a sentinel string with a number converts the string to \<open>NaN\<close> and is
  false, which \<open>status_ge\<close> and \<open>status_lt\<close> write out.
\<close>

datatype status = Code int | ERROR | DNS_ERROR | TIMEOUT | CONNECTION_REFUSED | Invalid

fun status_ge :: "status \<Rightarrow> int \<Rightarrow> bool" where
  "status_ge (Code n) k = (k \<le> n)"
| "status_ge _ k = False"

fun status_lt :: "status \<Rightarrow> int \<Rightarrow> bool" where
  "status_lt (Code n) k = (n < k)"
| "status_lt _ k = False"

text \<open>\<open>typeof status === 'number'\<close>\<close>

fun is_number :: "status \<Rightarrow> bool" where
  "is_number (Code n) = True"
| "is_number _ = False"

definition isSuccessStatus :: "status \<Rightarrow> bool" where
  "isSuccessStatus st =
     (if is_number st \<and> status_ge st 200 \<and> status_lt st 300 then True
      else if st = Code 304 then True
      else False)"

definition determinePriorityFromStatus :: "status \<Rightarrow> string" where
  "determinePriorityFromStatus st =
     (if st = Code 404 \<or> st = Code 500 \<or> st = ERROR then ''Critical''
      else if st = Code 403 \<or> st = Code 401 \<or> st = TIMEOUT then ''High''
      else if status_ge st 300 \<and> status_lt st 400 then ''Medium''
      else ''Low'')"

definition getIssueType :: "status \<Rightarrow> string" where
  "getIssueType st =
     (if st = Code 404 then ''Broken Link (404)''
      else if st = Code 403 then ''Access Forbidden (403)''
      else if st = Code 401 then ''Unauthorized (401)''
      else if st = Code 500 \<or> status_ge st 500 then ''Server Error (500+)''
      else if st = TIMEOUT then ''Timeout Error''
      else if st = DNS_ERROR then ''DNS Error''
      else if st = CONNECTION_REFUSED then ''Connection Refused''
      else if st = ERROR then ''Connection Error''
      else if st = Code 304 then ''Not Modified (Cached)''
      else if status_ge st 300 \<and> status_lt st 400 then ''Redirect''
      else ''Unknown Issue'')"

text \<open>
  \<open>calculateImpactScore(linkData, appearanceCount)\<close> reads \<open>linkData.status\<close> and
  \<open>linkData.context\<close>. \<open>impactSum\<close> is the variable \<open>score\<close> just before the final clamp.
\<close>

definition statusBonus :: "status \<Rightarrow> int" where
  "statusBonus st =
     (if st = Code 404 then 30
      else if status_ge st 500 then 35
      else if st = Code 403 then 20
      else if status_ge st 300 \<and> status_lt st 400 then 10
      else 0)"

definition contextBonus :: "string \<Rightarrow> int" where
  "contextBonus ctx =
     (if str_includes (toLowerCase ctx) ''cta'' \<or> str_includes (toLowerCase ctx) ''button''
      then 20 else 0)
     + (if str_includes (toLowerCase ctx) ''hero'' \<or> str_includes (toLowerCase ctx) ''header''
        then 15 else 0)
     + (if str_includes (toLowerCase ctx) ''navigation'' then 10 else 0)"

definition impactSum :: "status \<Rightarrow> string \<Rightarrow> nat \<Rightarrow> int" where
  "impactSum st ctx appearanceCount =
     50 + statusBonus st + contextBonus ctx + min (int appearanceCount * 5) 20"

definition calculateImpactScore :: "status \<Rightarrow> string \<Rightarrow> nat \<Rightarrow> int" where
  "calculateImpactScore st ctx appearanceCount =
     min (max (impactSum st ctx appearanceCount) 0) 100"

section \<open>Status verifier\<close>

text \<open>
  The pattern \<open>/^mailto:[a-zA-Z0-9._-]+@[a-zA-Z0-9.-]+\.[a-zA-Z]{2,}$/\<close> is a sequence of
  quantified character classes, anchored at both ends. An item \<open>(P, n, up)\<close> stands for the
  class \<open>P\<close> repeated exactly \<open>n\<close> times, or \<open>n\<close> times or more when \<open>up\<close> is set: a literal
  character is \<open>(P, 1, False)\<close>, \<open>[..]+\<close> is \<open>(P, 1, True)\<close> and \<open>[..]{2,}\<close> is \<open>(P, 2, True)\<close>.
  \<open>regex_test\<close> tries every split, as the backtracking matcher does.
\<close>

type_synonym regex_item = "(char \<Rightarrow> bool) \<times> nat \<times> bool"

function regex_test :: "regex_item list \<Rightarrow> string \<Rightarrow> bool" where
  "regex_test [] s = (s = [])"
| "regex_test ((P, Suc n, up) # items) [] = False"
| "regex_test ((P, Suc n, up) # items) (c # cs) = (P c \<and> regex_test ((P, n, up) # items) cs)"
| "regex_test ((P, 0, False) # items) s = regex_test items s"
| "regex_test ((P, 0, True) # items) [] = regex_test items []"
| "regex_test ((P, 0, True) # items) (c # cs) =
     (regex_test items (c # cs) \<or> (P c \<and> regex_test ((P, 0, True) # items) cs))"
  by pat_completeness auto
termination
  by (relation "measures [\<lambda>(items, s). length s, \<lambda>(items, s). length items]") auto

definition isAlpha :: "char \<Rightarrow> bool" where
  "isAlpha c = (let n = (of_char c :: nat) in (65 \<le> n \<and> n \<le> 90) \<or> (97 \<le> n \<and> n \<le> 122))"

definition isDigit :: "char \<Rightarrow> bool" where
  "isDigit c = (let n = (of_char c :: nat) in 48 \<le> n \<and> n \<le> 57)"

text \<open>\<open>[a-zA-Z0-9._-]\<close> and \<open>[a-zA-Z0-9.-]\<close>\<close>

definition localChar :: "char \<Rightarrow> bool" where
  "localChar c = (isAlpha c \<or> isDigit c \<or> c = CHR ''.'' \<or> c = CHR ''_'' \<or> c = CHR ''-'')"

definition domainChar :: "char \<Rightarrow> bool" where
  "domainChar c = (isAlpha c \<or> isDigit c \<or> c = CHR ''.'' \<or> c = CHR ''-'')"

definition literal :: "string \<Rightarrow> regex_item list" where
  "literal s = map (\<lambda>c. ((\<lambda>d. d = c), 1, False)) s"

definition emailPattern :: "regex_item list" where
  "emailPattern =
     literal ''mailto:'' @ [(localChar, 1, True)] @ literal ''@'' @ [(domainChar, 1, True)]
       @ literal ''.'' @ [(isAlpha, 2, True)]"

text \<open>
  The outcome of a verification. A property the JavaScript object does not carry is \<open>undefined\<close>:
  \<open>None\<close> for \<open>redirectCount\<close> and \<open>finalUrl\<close>, \<open>False\<close> for the flags (they are only ever tested
  for truthiness).
\<close>

record status_info =
  status :: status
  statusText :: string
  responseTime :: nat
  redirectCount :: "nat option"
  finalUrl :: "string option"
  checkedWithBrowser :: bool
  isAffiliate :: bool
  treatAsWorking :: bool
  skip :: bool

definition plain_info :: "status \<Rightarrow> string \<Rightarrow> nat \<Rightarrow> status_info" where
  "plain_info st txt ms =
     \<lparr>status = st, statusText = txt, responseTime = ms, redirectCount = None, finalUrl = None,
      checkedWithBrowser = False, isAffiliate = False, treatAsWorking = False, skip = False\<rparr>"

text \<open>
  The network is a parameter. A browser handle answers a navigation with the response's status,
  status text, the page's final URL and the elapsed time, or throws (\<open>BrowserThrows message\<close>).
  \<open>axios.get\<close> with \<open>validateStatus: () => true\<close> answers with a response or throws an error
  that has a \<open>code\<close>, possibly a \<open>response\<close>, and a \<open>message\<close>.
\<close>

datatype browser_result =
    BrowserResponse int string string nat
  | BrowserThrows string

record http_response =
  resp_status :: int
  resp_statusText :: string
  resp_elapsed :: nat
  resp_redirectCount :: "nat option"
  resp_responseUrl :: "string option"

record http_error =
  err_code :: string
  err_response :: "(int \<times> string) option"
  err_message :: string

datatype http_result = HttpResponse http_response | HttpThrows http_error

type_synonym browser = "string \<Rightarrow> browser_result"
type_synonym network = "string \<Rightarrow> http_result"

text \<open>What a verification did on the network, in order.\<close>

datatype io = BrowserGoto string | HttpGet string

definition checkLinkWithBrowser :: "string \<Rightarrow> browser \<Rightarrow> status_info" where
  "checkLinkWithBrowser url browser =
     (case browser url of
        BrowserResponse st txt final ms \<Rightarrow>
          \<lparr>status = Code st, statusText = txt, responseTime = ms, redirectCount = Some 0,
           finalUrl = Some final, checkedWithBrowser = True, isAffiliate = True,
           treatAsWorking = False, skip = False\<rparr>
      | BrowserThrows message \<Rightarrow>
          \<lparr>status = ERROR, statusText = message, responseTime = 0, redirectCount = None,
           finalUrl = None, checkedWithBrowser = True, isAffiliate = True,
           treatAsWorking = False, skip = False\<rparr>)"

text \<open>The \<open>catch\<close> block of \<open>checkLinkStatus\<close>.\<close>

definition fromHttpError :: "http_error \<Rightarrow> status_info" where
  "fromHttpError e =
     (if err_code e = ''ENOTFOUND'' then plain_info DNS_ERROR ''Domain not found'' 0
      else if err_code e = ''ETIMEDOUT'' \<or> err_code e = ''ECONNABORTED''
        then plain_info TIMEOUT ''Request timeout'' 10000
      else if err_code e = ''ECONNREFUSED''
        then plain_info CONNECTION_REFUSED ''Connection refused'' 0
      else (case err_response e of
              Some (st, txt) \<Rightarrow> plain_info (Code st) txt 0
            | None \<Rightarrow> plain_info ERROR (err_message e) 0))"

text \<open>\<open>a || b\<close> on strings: the empty string is falsy.\<close>

definition str_or :: "string \<Rightarrow> string \<Rightarrow> string" where
  "str_or a b = (if a = [] then b else a)"

text \<open>The plain HTTP probe, with the \<open>catch\<close> block for what \<open>axios.get\<close> throws.\<close>

definition standardCheck :: "network \<Rightarrow> string \<Rightarrow> io list \<times> status_info" where
  "standardCheck net url =
     (case net url of
        HttpResponse r \<Rightarrow>
          ([HttpGet url],
           \<lparr>status = Code (resp_status r), statusText = resp_statusText r,
            responseTime = resp_elapsed r,
            redirectCount = Some (case resp_redirectCount r of None \<Rightarrow> 0 | Some k \<Rightarrow> k),
            finalUrl = Some (str_or (case resp_responseUrl r of None \<Rightarrow> [] | Some u \<Rightarrow> u) url),
            checkedWithBrowser = False, isAffiliate = False, treatAsWorking = False,
            skip = False\<rparr>)
      | HttpThrows e \<Rightarrow> ([HttpGet url], fromHttpError e))"

text \<open>The branch \<open>if (browser && isAffiliateLink(url))\<close>, entered with the browser handle.\<close>

definition affiliateCheck :: "string \<Rightarrow> browser \<Rightarrow> io list \<times> status_info" where
  "affiliateCheck url b =
     (let result = checkLinkWithBrowser url b in
      if status result = Code 403
      then ([BrowserGoto url],
            result\<lparr>treatAsWorking := True,
                   statusText := ''Anti-bot protection (link works in browsers)''\<rparr>)
      else ([BrowserGoto url], result))"

definition checkLinkStatus :: "network \<Rightarrow> string \<Rightarrow> browser option \<Rightarrow> io list \<times> status_info" where
  "checkLinkStatus net url browser =
     (if isTrackingPixel url then ([], (plain_info (Code 200) ''Tracking Pixel'' 0)\<lparr>skip := True\<rparr>)
      else if startsWith url ''data:'' \<or> startsWith url ''blob:''
        then ([], (plain_info (Code 200) ''Inline Content'' 0)\<lparr>skip := True\<rparr>)
      else if startsWith url ''mailto:''
        then ([], plain_info (if regex_test emailPattern url then Code 200 else Invalid)
                    (if regex_test emailPattern url then ''Valid Email'' else ''Malformed Email'') 0)
      else if startsWith url ''tel:'' then ([], plain_info (Code 200) ''Phone Link'' 0)
      else if startsWith url ''javascript:'' \<or> startsWith url ''#''
        then ([], plain_info (Code 200) ''Internal Reference'' 0)
      else (case browser of
              Some b \<Rightarrow> if isAffiliateLink url then affiliateCheck url b else standardCheck net url
            | None \<Rightarrow> standardCheck net url))"

section \<open>Site crawler\<close>

text \<open>
  One element found by \<open>page.evaluate\<close>: \<open>{ url, text, context, type }\<close>; and the reference the
  crawler stores for it, \<open>{ ...link, pageUrl: currentUrl }\<close>.
\<close>

datatype link_type = LinkT | ImageT | CssT | ScriptT

record page_link =
  pl_url :: string
  pl_text :: string
  pl_context :: string
  pl_type :: link_type

record link =
  l_url :: string
  l_text :: string
  l_context :: string
  l_type :: link_type
  l_pageUrl :: string

definition withPageUrl :: "string \<Rightarrow> page_link \<Rightarrow> link" where
  "withPageUrl currentUrl pl =
     \<lparr>l_url = pl_url pl, l_text = pl_text pl, l_context = pl_context pl, l_type = pl_type pl,
      l_pageUrl = currentUrl\<rparr>"

text \<open>
  What opening one page does, as a parameter: \<open>browser.newPage\<close> or \<open>setUserAgent\<close> throws
  (\<open>TabFails\<close>, no navigation happens), \<open>page.goto\<close> throws, \<open>page.evaluate\<close> throws, or the
  page yields its elements. Every exception is caught by the loop body's \<open>catch\<close>.
  \<open>new URL(u).hostname\<close> is a parameter too, \<open>None\<close> where the constructor throws.
\<close>

datatype page_result = TabFails | GotoFails | EvaluateFails | Loaded "page_link list"

type_synonym site = "string \<Rightarrow> page_result"
type_synonym url_parser = "string \<Rightarrow> string option"

text \<open>
  The crawl's variables: \<open>visited\<close> (a \<open>Set\<close>, kept in insertion order as \<open>Array.from\<close> reads
  it), the queue \<open>toVisit\<close> and \<open>allLinks\<close>; and the log of what the loop did, in order:
  \<open>visited.add(u)\<close>, \<open>page.goto(u)\<close>, and \<open>toVisit.push(u)\<close> together with the page whose
  iteration pushed \<open>u\<close>.
\<close>

datatype crawl_event = Visit string | Goto string | Push string string

record crawl_state =
  visited :: "string list"
  toVisit :: "string list"
  allLinks :: "link list"
  events :: "crawl_event list"

text \<open>The filter that selects \<open>internalLinks\<close>.\<close>

definition isInternal :: "url_parser \<Rightarrow> string \<Rightarrow> page_link \<Rightarrow> bool" where
  "isInternal hostname baseDomain pl =
     (if pl_type pl \<noteq> LinkT then False
      else if isAffiliateLink (pl_url pl) then False
      else (case hostname (pl_url pl) of
              Some linkHostname \<Rightarrow> linkHostname = baseDomain
            | None \<Rightarrow> False))"

text \<open>The body of \<open>internalLinks.forEach\<close>.\<close>

definition enqueue :: "string \<Rightarrow> crawl_state \<Rightarrow> string \<Rightarrow> crawl_state" where
  "enqueue currentUrl s u =
     (if u \<notin> set (visited s) \<and> u \<notin> set (toVisit s)
      then s\<lparr>toVisit := toVisit s @ [u], events := events s @ [Push currentUrl u]\<rparr>
      else s)"

text \<open>The \<open>try\<close> block of the loop body, for a page already marked visited.\<close>

definition crawlPage :: "url_parser \<Rightarrow> site \<Rightarrow> string \<Rightarrow> string \<Rightarrow> crawl_state \<Rightarrow> crawl_state" where
  "crawlPage hostname site baseDomain currentUrl s =
     (case site currentUrl of
        TabFails \<Rightarrow> s
      | GotoFails \<Rightarrow> s\<lparr>events := events s @ [Goto currentUrl]\<rparr>
      | EvaluateFails \<Rightarrow> s\<lparr>events := events s @ [Goto currentUrl]\<rparr>
      | Loaded links \<Rightarrow>
          foldl (enqueue currentUrl)
            (s\<lparr>allLinks := allLinks s @ map (withPageUrl currentUrl) links,
               events := events s @ [Goto currentUrl]\<rparr>)
            (map pl_url (filter (isInternal hostname baseDomain) links)))"

text \<open>One iteration of the \<open>while\<close> loop, entered with a non-empty queue.\<close>

definition crawlStep :: "url_parser \<Rightarrow> site \<Rightarrow> string \<Rightarrow> crawl_state \<Rightarrow> crawl_state" where
  "crawlStep hostname site baseDomain s =
     (case toVisit s of
        [] \<Rightarrow> s
      | currentUrl # rest \<Rightarrow>
          if currentUrl \<in> set (visited s) then s\<lparr>toVisit := rest\<rparr>
          else crawlPage hostname site baseDomain currentUrl
                 (s\<lparr>toVisit := rest, visited := visited s @ [currentUrl],
                    events := events s @ [Visit currentUrl]\<rparr>))"

lemma crawlPage_visited: "visited (crawlPage hostname site baseDomain u s) = visited s"
proof -
  have "visited (foldl (enqueue u) t us) = visited t" for t us
    by (induction us arbitrary: t) (simp_all add: enqueue_def)
  then show ?thesis
    by (simp add: crawlPage_def split: page_result.split)
qed

lemma crawlStep_measure:
  assumes "toVisit s \<noteq> []" and "length (visited s) < maxPages"
  shows "maxPages - length (visited (crawlStep hostname site baseDomain s))
           < maxPages - length (visited s)
         \<or> (length (visited (crawlStep hostname site baseDomain s)) = length (visited s)
            \<and> length (toVisit (crawlStep hostname site baseDomain s)) < length (toVisit s))"
proof (cases "toVisit s")
  case Nil
  with assms show ?thesis by simp
next
  case (Cons u rest)
  with assms show ?thesis
    by (auto simp: crawlStep_def crawlPage_visited)
qed

text \<open>\<open>while (toVisit.length > 0 && visited.size < maxPages)\<close>\<close>

function crawlLoop :: "url_parser \<Rightarrow> site \<Rightarrow> string \<Rightarrow> nat \<Rightarrow> crawl_state \<Rightarrow> crawl_state" where
  "crawlLoop hostname site baseDomain maxPages s =
     (if toVisit s \<noteq> [] \<and> length (visited s) < maxPages
      then crawlLoop hostname site baseDomain maxPages (crawlStep hostname site baseDomain s)
      else s)"
  by pat_completeness auto
termination
proof (relation "measures [\<lambda>(h, w, b, m, s). m - length (visited s),
                           \<lambda>(h, w, b, m, s). length (toVisit s)]", goal_cases)
  case 1
  show ?case by simp
next
  case (2 hostname site baseDomain maxPages s)
  then show ?case
    using crawlStep_measure [of s maxPages hostname site baseDomain] by auto
qed

text \<open>
  \<open>crawlWebsite(domain, maxPages = 50)\<close>. \<open>new URL(domain)\<close> throws on a malformed root URL,
  before any browser exists. The result's \<open>pages\<close> are \<open>visited\<close> and its \<open>links\<close> are \<open>allLinks\<close>.
\<close>

datatype scan_error = BadRequest string | ServerError string

definition crawlWebsite :: "url_parser \<Rightarrow> site \<Rightarrow> string \<Rightarrow> nat \<Rightarrow> scan_error + crawl_state" where
  "crawlWebsite hostname site domain maxPages =
     (case hostname domain of
        None \<Rightarrow> Inl (ServerError ''Invalid URL'')
      | Some baseDomain \<Rightarrow>
          Inr (crawlLoop hostname site baseDomain maxPages
                 \<lparr>visited = [], toVisit = [domain], allLinks = [], events = []\<rparr>))"

section \<open>Numbers\<close>

text \<open>
  A JavaScript number is an IEEE 754 double: \<open>NaN\<close>, an infinity, or a finite value, kept here
  as the rational it denotes (the sign of a zero is not kept; no operation below tells the zeros
  apart). \<open>fl\<close> rounds a rational to the nearest double, ties to the even mantissa: the
  mantissa has 53 bits at the binary exponent of the value, never below the subnormal exponent
  \<open>-1022\<close>, and a result beyond the largest finite double is an infinity.
\<close>

datatype jsnum = NaN | PosInf | NegInf | Fin rat

definition roundHalfEven :: "rat \<Rightarrow> int" where
  "roundHalfEven x =
     (let f = \<lfloor>x\<rfloor>; d = x - of_int f in
      if d < 1 / 2 then f else if 1 / 2 < d then f + 1 else if even f then f else f + 1)"

text \<open>The \<open>e\<close> with \<open>2 ^ e \<le> a < 2 ^ (e + 1)\<close>, for a positive \<open>a\<close>.\<close>

definition binaryExponent :: "rat \<Rightarrow> int" where
  "binaryExponent a =
     (let (n, d) = quotient_of a; e = bitlen n - bitlen d in
      if 2 powi e \<le> a then e else e - 1)"

definition fl :: "rat \<Rightarrow> jsnum" where
  "fl q =
     (if q = 0 then Fin 0
      else
        let a = \<bar>q\<bar>;
            e = max (binaryExponent a) (- 1022);
            ulp = 2 powi (e - 52);
            m = roundHalfEven (a / ulp);
            v = of_int m * ulp
        in if 1023 < e \<or> (e = 1023 \<and> m = 2 ^ 53) then (if 0 < q then PosInf else NegInf)
           else Fin (if 0 < q then v else - v))"

text \<open>\<open>a / b\<close> and \<open>x * b\<close> for finite \<open>a\<close>, \<open>b\<close>, and \<open>Math.round\<close>.\<close>

definition js_div :: "rat \<Rightarrow> rat \<Rightarrow> jsnum" where
  "js_div a b =
     (if b = 0 then (if a = 0 then NaN else if 0 < a then PosInf else NegInf)
      else fl (a / b))"

fun js_mul :: "jsnum \<Rightarrow> rat \<Rightarrow> jsnum" where
  "js_mul NaN b = NaN"
| "js_mul PosInf b = (if b = 0 then NaN else if 0 < b then PosInf else NegInf)"
| "js_mul NegInf b = (if b = 0 then NaN else if 0 < b then NegInf else PosInf)"
| "js_mul (Fin a) b = fl (a * b)"

fun js_round :: "jsnum \<Rightarrow> jsnum" where
  "js_round (Fin a) = Fin (of_int \<lfloor>a + 1 / 2\<rfloor>)"
| "js_round x = x"

text \<open>\<open>Math.round(((totalLinks - issueLinks) / totalLinks) * 100)\<close>\<close>

definition healthScore :: "nat \<Rightarrow> nat \<Rightarrow> jsnum" where
  "healthScore totalLinks issueLinks =
     js_round (js_mul (js_div (of_int (int totalLinks - int issueLinks)) (of_nat totalLinks)) 100)"

text \<open>Template literals print a number in decimal.\<close>

function showNat :: "nat \<Rightarrow> string" where
  "showNat n = (if n < 10 then [char_of (48 + n)] else showNat (n div 10) @ [char_of (48 + n mod 10)])"
  by pat_completeness auto
termination
  by (relation "measure id") auto

definition showInt :: "int \<Rightarrow> string" where
  "showInt i = (if i < 0 then CHR ''-'' # showNat (nat (- i)) else showNat (nat i))"

fun showStatus :: "status \<Rightarrow> string" where
  "showStatus (Code n) = showInt n"
| "showStatus ERROR = ''ERROR''"
| "showStatus DNS_ERROR = ''DNS_ERROR''"
| "showStatus TIMEOUT = ''TIMEOUT''"
| "showStatus CONNECTION_REFUSED = ''CONNECTION_REFUSED''"
| "showStatus Invalid = ''Invalid''"

section \<open>Scan orchestrator\<close>

text \<open>
  \<open>analyzeWithAI\<close> answers \<open>null\<close> or \<open>{ analysis, suggestedFix, issueType, priority }\<close>; what
  it answers for \<open>{ linkText, linkUrl, context, status }\<close> is a parameter, and so is what
  \<open>takeErrorScreenshot(pageUrl, linkText, linkUrl, browser)\<close> returns (\<open>null\<close> or the image).
\<close>

record ai_result =
  ai_analysis :: string
  ai_suggestedFix :: "string option"
  ai_issueType :: string
  ai_priority :: string

type_synonym analyzer = "string \<Rightarrow> string \<Rightarrow> string \<Rightarrow> status \<Rightarrow> ai_result option"
type_synonym capturer = "string \<Rightarrow> string \<Rightarrow> string \<Rightarrow> string option"

record issue =
  i_id :: nat
  i_pageUrl :: string
  i_linkText :: string
  i_linkUrl :: string
  i_status :: status
  i_statusText :: string
  i_responseTime :: nat
  i_redirectCount :: nat
  i_finalUrl :: string
  i_priority :: string
  i_type :: string
  i_context :: string
  i_aiAnalysis :: string
  i_suggestedFix :: "string option"
  i_impactScore :: int
  i_appearancesCount :: nat
  i_linkType :: link_type
  i_screenshot :: "string option"

text \<open>
  Step 2: \<open>linkAppearances.set(key, (linkAppearances.get(key) || 0) + 1)\<close> for every link.
\<close>

definition countLink :: "(string \<rightharpoonup> nat) \<Rightarrow> link \<Rightarrow> (string \<rightharpoonup> nat)" where
  "countLink m l = m(l_url l \<mapsto> (case m (l_url l) of None \<Rightarrow> 0 | Some n \<Rightarrow> n) + 1)"

definition linkAppearances :: "link list \<Rightarrow> (string \<rightharpoonup> nat)" where
  "linkAppearances links = foldl countLink Map.empty links"

text \<open>
  Step 3: \<open>Array.from(new Set(links.map(l => l.url))).map(url => links.find(l => l.url === url))\<close>.
  A \<open>Set\<close> keeps its elements in the order of their first insertion; every URL of the set is
  the URL of some link, so \<open>find\<close> never answers \<open>undefined\<close>.
\<close>

definition insertionOrder :: "'a list \<Rightarrow> 'a list" where
  "insertionOrder xs = foldl (\<lambda>acc x. if x \<in> set acc then acc else acc @ [x]) [] xs"

definition uniqueLinks :: "link list \<Rightarrow> link list" where
  "uniqueLinks links =
     List.map_filter (\<lambda>u. find (\<lambda>l. l_url l = u) links) (insertionOrder (map l_url links))"

definition needsAnalysis :: "status_info \<Rightarrow> link \<Rightarrow> bool" where
  "needsAnalysis statusInfo l =
     (status statusInfo \<noteq> Code 200
      \<or> (case redirectCount statusInfo of None \<Rightarrow> False | Some k \<Rightarrow> 0 < k)
      \<or> str_includes (toLowerCase (l_context l)) ''cta''
      \<or> str_includes (toLowerCase (l_context l)) ''button'')"

definition isActualIssue :: "status_info \<Rightarrow> bool" where
  "isActualIssue statusInfo =
     (\<not> isSuccessStatus (status statusInfo)
      \<and> \<not> treatAsWorking statusInfo
      \<and> status statusInfo \<noteq> Code 200
      \<and> \<not> (is_number (status statusInfo)
             \<and> status_ge (status statusInfo) 300 \<and> status_lt (status statusInfo) 400))"

definition shouldTakeScreenshot :: "status_info \<Rightarrow> bool" where
  "shouldTakeScreenshot statusInfo =
     ((status statusInfo = Code 404
       \<or> status statusInfo = Code 500
       \<or> status statusInfo = ERROR
       \<or> status statusInfo = DNS_ERROR
       \<or> status statusInfo = TIMEOUT)
      \<and> \<not> treatAsWorking statusInfo)"

text \<open>\<open>aiAnalysis && aiAnalysis.issueType !== 'No Issue'\<close>\<close>

definition aiFlags :: "ai_result option \<Rightarrow> bool" where
  "aiFlags aiAnalysis =
     (case aiAnalysis of None \<Rightarrow> False | Some a \<Rightarrow> ai_issueType a \<noteq> ''No Issue'')"

definition friendlyMessage :: "status_info \<Rightarrow> ai_result option \<Rightarrow> string" where
  "friendlyMessage statusInfo aiAnalysis =
     (let st = status statusInfo;
          redirects = (case redirectCount statusInfo of None \<Rightarrow> 0 | Some k \<Rightarrow> k)
      in
        (if st = Code 404
           then ''Page not found (404). This link is broken and leads nowhere.''
         else if st = Code 403
           then ''Access forbidden (403). The server is blocking access to this page.''
         else if st = Code 500
           then ''Server error (500). The destination server has internal problems.''
         else if st = TIMEOUT then ''Request timeout. The page took too long to respond.''
         else if st = DNS_ERROR
           then ''Domain not found. The website address doesn'' @ [char_of (39 :: nat)] @ ''t exist.''
         else if st = CONNECTION_REFUSED
           then ''Connection refused. The server is not accepting connections.''
         else if st = ERROR then ''Connection error: '' @ statusText statusInfo
         else if 0 < redirects \<and> status_ge st 300 \<and> status_lt st 400
           then ''Working but has '' @ showNat redirects @ '' redirect(s) which may slow page load.''
         else str_or (case aiAnalysis of None \<Rightarrow> [] | Some a \<Rightarrow> ai_analysis a)
                (''Link returned '' @ showStatus st @ '' status''))
        @ (if isAffiliate statusInfo
             then '' [Affiliate link - only checked if it opens, destination not scanned]''
           else if checkedWithBrowser statusInfo then '' (Verified with browser)''
           else []))"

text \<open>
  The scan's log: each call of \<open>checkLinkStatus\<close> with the network operations it performed, and
  each call of \<open>takeErrorScreenshot\<close>.
\<close>

datatype scan_event =
    CheckLinkStatus string "io list"
  | TakeErrorScreenshot string string string

record scan_state =
  results :: "issue list"
  trace :: "scan_event list"

text \<open>The object pushed on \<open>results\<close>.\<close>

definition makeIssue ::
  "nat \<Rightarrow> link \<Rightarrow> status_info \<Rightarrow> ai_result option \<Rightarrow> int \<Rightarrow> nat \<Rightarrow> string option \<Rightarrow> issue" where
  "makeIssue n l statusInfo aiAnalysis impactScore appearanceCount screenshot =
     \<lparr>i_id = n + 1,
      i_pageUrl = l_pageUrl l,
      i_linkText = l_text l,
      i_linkUrl = l_url l,
      i_status = status statusInfo,
      i_statusText = statusText statusInfo,
      i_responseTime = responseTime statusInfo,
      i_redirectCount = (case redirectCount statusInfo of None \<Rightarrow> 0 | Some k \<Rightarrow> k),
      i_finalUrl = str_or (case finalUrl statusInfo of None \<Rightarrow> [] | Some u \<Rightarrow> u) (l_url l),
      i_priority = str_or (case aiAnalysis of None \<Rightarrow> [] | Some a \<Rightarrow> ai_priority a)
                     (determinePriorityFromStatus (status statusInfo)),
      i_type = str_or (case aiAnalysis of None \<Rightarrow> [] | Some a \<Rightarrow> ai_issueType a)
                 (getIssueType (status statusInfo)),
      i_context = l_context l,
      i_aiAnalysis = friendlyMessage statusInfo aiAnalysis,
      i_suggestedFix =
        (case aiAnalysis of
           None \<Rightarrow> None
         | Some a \<Rightarrow> (case ai_suggestedFix a of
                        None \<Rightarrow> None
                      | Some f \<Rightarrow> if f = [] then None else Some f)),
      i_impactScore = impactScore,
      i_appearancesCount = appearanceCount,
      i_linkType = l_type l,
      i_screenshot = screenshot\<rparr>"

text \<open>
  The part of the loop body after the \<open>skip\<close> test, for a link whose verification gave
  \<open>statusInfo\<close>. \<open>linkAppearances.get(link.url)\<close> is defined for every link of the scan.
\<close>

definition reportLink ::
  "analyzer \<Rightarrow> capturer \<Rightarrow> (string \<rightharpoonup> nat) \<Rightarrow> scan_state \<Rightarrow> link \<Rightarrow> status_info \<Rightarrow> scan_state" where
  "reportLink analyzeWithAI takeErrorScreenshot appearances s l statusInfo =
     (let appearanceCount = (case appearances (l_url l) of None \<Rightarrow> 0 | Some n \<Rightarrow> n);
          aiAnalysis =
            (if needsAnalysis statusInfo l
             then analyzeWithAI (l_text l) (l_url l) (l_context l) (status statusInfo)
             else None);
          impactScore = calculateImpactScore (status statusInfo) (l_context l) appearanceCount
      in
        if status statusInfo = Code 403 \<and> isAffiliate statusInfo then s
        else if status statusInfo = Code 304 then s
        else if isActualIssue statusInfo \<or> aiFlags aiAnalysis then
          (if shouldTakeScreenshot statusInfo
           then s\<lparr>results := results s @
                     [makeIssue (length (results s)) l statusInfo aiAnalysis impactScore
                        appearanceCount (takeErrorScreenshot (l_pageUrl l) (l_text l) (l_url l))],
                   trace := trace s @ [TakeErrorScreenshot (l_pageUrl l) (l_text l) (l_url l)]\<rparr>
           else s\<lparr>results := results s @
                     [makeIssue (length (results s)) l statusInfo aiAnalysis impactScore
                        appearanceCount None]\<rparr>)
        else s)"

text \<open>The body of \<open>for (const link of uniqueLinks)\<close>.\<close>

definition checkLink ::
  "network \<Rightarrow> browser \<Rightarrow> analyzer \<Rightarrow> capturer \<Rightarrow> (string \<rightharpoonup> nat) \<Rightarrow> scan_state \<Rightarrow> link
     \<Rightarrow> scan_state" where
  "checkLink net affiliateBrowser analyzeWithAI takeErrorScreenshot appearances s l =
     (let (ios, statusInfo) = checkLinkStatus net (l_url l) (Some affiliateBrowser);
          s1 = s\<lparr>trace := trace s @ [CheckLinkStatus (l_url l) ios]\<rparr>
      in if skip statusInfo then s1
         else reportLink analyzeWithAI takeErrorScreenshot appearances s1 l statusInfo)"

definition checkLinks ::
  "network \<Rightarrow> browser \<Rightarrow> analyzer \<Rightarrow> capturer \<Rightarrow> link list \<Rightarrow> scan_state" where
  "checkLinks net affiliateBrowser analyzeWithAI takeErrorScreenshot links =
     foldl (checkLink net affiliateBrowser analyzeWithAI takeErrorScreenshot (linkAppearances links))
       \<lparr>results = [], trace = []\<rparr> (uniqueLinks links)"

text \<open>
  \<open>results.sort((a, b) => priorityOrder[a.priority] - priorityOrder[b.priority])\<close>. The sort is
  stable. For a priority outside the table the difference is \<open>NaN\<close>, which \<open>sort\<close> reads as 0;
  the comparator is then not a consistent order and the language leaves the order of the result
  to the implementation. \<open>sortByPriority\<close> is the stable insertion sort with this comparator:
  the order the program produces for priorities of the table, and the same elements always.
\<close>

definition priorityOrder :: "string \<Rightarrow> int option" where
  "priorityOrder p =
     (if p = ''Critical'' then Some 0 else if p = ''High'' then Some 1
      else if p = ''Medium'' then Some 2 else if p = ''Low'' then Some 3 else None)"

definition comesAfter :: "issue \<Rightarrow> issue \<Rightarrow> bool" where
  "comesAfter a b =
     (case (priorityOrder (i_priority a), priorityOrder (i_priority b)) of
        (Some x, Some y) \<Rightarrow> 0 < x - y
      | _ \<Rightarrow> False)"

fun insertByPriority :: "issue \<Rightarrow> issue list \<Rightarrow> issue list" where
  "insertByPriority a [] = [a]"
| "insertByPriority a (b # bs) = (if comesAfter a b then b # insertByPriority a bs else a # b # bs)"

definition sortByPriority :: "issue list \<Rightarrow> issue list" where
  "sortByPriority rs = foldr insertByPriority rs []"

text \<open>The response: \<open>{ healthScore, stats, results, pages }\<close>.\<close>

record stats =
  totalPages :: nat
  totalLinks :: nat
  brokenLinks :: nat
  criticalIssues :: nat
  highIssues :: nat
  avgImpactScore :: jsnum

record report =
  rep_healthScore :: jsnum
  rep_stats :: stats
  rep_results :: "issue list"
  rep_pages :: "string list"

definition buildReport :: "string list \<Rightarrow> link list \<Rightarrow> issue list \<Rightarrow> report" where
  "buildReport pages links rs =
     \<lparr>rep_healthScore = healthScore (length links) (length rs),
      rep_stats =
        \<lparr>totalPages = length pages,
         totalLinks = length links,
         brokenLinks = length rs,
         criticalIssues = length (filter (\<lambda>r. i_priority r = ''Critical'') rs),
         highIssues = length (filter (\<lambda>r. i_priority r = ''High'') rs),
         avgImpactScore =
           (if 0 < length rs
            then js_round (js_div (of_int (sum_list (map i_impactScore rs))) (of_nat (length rs)))
            else Fin 0)\<rparr>,
      rep_results = sortByPriority rs,
      rep_pages = pages\<rparr>"

text \<open>
  The handler of \<open>POST /api/scan\<close>, for browsers that launch: a \<open>domain\<close> that is empty or
  that \<open>new URL\<close> rejects is answered with status 400, otherwise the site is crawled with the
  default \<open>maxPages = 50\<close>, every unique link is checked and the report is sent.
\<close>

record world =
  w_hostname :: url_parser
  w_site :: site
  w_net :: network
  w_browser :: browser
  w_analyze :: analyzer
  w_capture :: capturer

definition scan :: "world \<Rightarrow> string \<Rightarrow> scan_error + report" where
  "scan w domain =
     (if domain = [] \<or> w_hostname w domain = None then Inl (BadRequest ''Invalid domain URL'')
      else (case crawlWebsite (w_hostname w) (w_site w) domain 50 of
              Inl e \<Rightarrow> Inl e
            | Inr c \<Rightarrow>
                Inr (buildReport (visited c) (allLinks c)
                       (results (checkLinks (w_net w) (w_browser w) (w_analyze w) (w_capture w)
                                   (allLinks c))))))"

section \<open>Properties of the string functions\<close>

lemma startsWith_iff: "startsWith s p \<longleftrightarrow> (\<exists>v. s = p @ v)"
  by (induction s p rule: startsWith.induct) auto

lemma str_includes_iff: "str_includes s p \<longleftrightarrow> (\<exists>u v. s = u @ p @ v)"
proof (induction s)
  case Nil
  then show ?case by auto
next
  case (Cons c cs)
  show ?case
  proof
    assume "str_includes (c # cs) p"
    then consider "startsWith (c # cs) p" | "str_includes cs p" by auto
    then show "\<exists>u v. c # cs = u @ p @ v"
    proof cases
      case 1
      then obtain v where "c # cs = p @ v" by (auto simp: startsWith_iff)
      then have "c # cs = [] @ p @ v" by simp
      then show ?thesis by blast
    next
      case 2
      then obtain u v where "cs = u @ p @ v" using Cons.IH by blast
      then have "c # cs = (c # u) @ p @ v" by simp
      then show ?thesis by blast
    qed
  next
    assume "\<exists>u v. c # cs = u @ p @ v"
    then obtain u v where e: "c # cs = u @ p @ v" by blast
    show "str_includes (c # cs) p"
    proof (cases u)
      case Nil
      with e have "startsWith (c # cs) p" by (auto simp: startsWith_iff)
      then show ?thesis by simp
    next
      case (Cons a u')
      with e have "cs = u' @ p @ v" by simp
      then have "str_includes cs p" using Cons.IH by blast
      then show ?thesis by simp
    qed
  qed
qed

section \<open>Fallback taxonomy\<close>

text \<open>
  C3, as stated, fails: the claim sends every status outside its list to priority Low with the
  label "Unknown Issue", but the status \<open>ERROR\<close> has priority Critical and the label
  "Connection Error".
\<close>

theorem fallback_table_counterexample:
  "determinePriorityFromStatus ERROR = ''Critical'' \<and> getIssueType ERROR = ''Connection Error''
   \<and> \<not> (determinePriorityFromStatus ERROR = ''Low'' \<and> getIssueType ERROR = ''Unknown Issue'')"
  by (simp add: determinePriorityFromStatus_def getIssueType_def)

text \<open>
  C3, amended: the fallback mappings follow this table. 404 is Critical, "Broken Link (404)";
  500 is Critical and every status of 500 or more has the label "Server Error (500+)";
  \<open>ERROR\<close> is Critical, "Connection Error"; 403 and 401 are High with the labels
  "Access Forbidden (403)" and "Unauthorized (401)"; \<open>TIMEOUT\<close> is High, "Timeout Error"; every
  3xx is Medium, with the label "Not Modified (Cached)" for 304 and "Redirect" otherwise;
  \<open>DNS_ERROR\<close> and \<open>CONNECTION_REFUSED\<close> are Low with the labels "DNS Error" and
  "Connection Refused"; \<open>Invalid\<close> and every other code below 500 are Low, "Unknown Issue".
  (The priority of a status above 500 is not part of the statement.)
\<close>

theorem fallback_table:
  "determinePriorityFromStatus (Code 404) = ''Critical''
   \<and> getIssueType (Code 404) = ''Broken Link (404)''
   \<and> determinePriorityFromStatus (Code 500) = ''Critical''
   \<and> (500 \<le> n \<longrightarrow> getIssueType (Code n) = ''Server Error (500+)'')
   \<and> determinePriorityFromStatus ERROR = ''Critical''
   \<and> getIssueType ERROR = ''Connection Error''
   \<and> determinePriorityFromStatus (Code 403) = ''High''
   \<and> getIssueType (Code 403) = ''Access Forbidden (403)''
   \<and> determinePriorityFromStatus (Code 401) = ''High''
   \<and> getIssueType (Code 401) = ''Unauthorized (401)''
   \<and> determinePriorityFromStatus TIMEOUT = ''High''
   \<and> getIssueType TIMEOUT = ''Timeout Error''
   \<and> (300 \<le> m \<and> m < 400 \<longrightarrow> determinePriorityFromStatus (Code m) = ''Medium'')
   \<and> getIssueType (Code 304) = ''Not Modified (Cached)''
   \<and> (300 \<le> m \<and> m < 400 \<and> m \<noteq> 304 \<longrightarrow> getIssueType (Code m) = ''Redirect'')
   \<and> determinePriorityFromStatus DNS_ERROR = ''Low''
   \<and> getIssueType DNS_ERROR = ''DNS Error''
   \<and> determinePriorityFromStatus CONNECTION_REFUSED = ''Low''
   \<and> getIssueType CONNECTION_REFUSED = ''Connection Refused''
   \<and> determinePriorityFromStatus Invalid = ''Low''
   \<and> getIssueType Invalid = ''Unknown Issue''
   \<and> ((k < 300 \<or> (400 \<le> k \<and> k < 500)) \<and> k \<noteq> 401 \<and> k \<noteq> 403 \<and> k \<noteq> 404
        \<longrightarrow> determinePriorityFromStatus (Code k) = ''Low''
            \<and> getIssueType (Code k) = ''Unknown Issue'')"
  by (simp add: determinePriorityFromStatus_def getIssueType_def)

theorem fallback_table_witness:
  "getIssueType (Code 503) = ''Server Error (500+)''
   \<and> determinePriorityFromStatus (Code 301) = ''Medium''
   \<and> getIssueType (Code 301) = ''Redirect''
   \<and> determinePriorityFromStatus (Code 418) = ''Low''
   \<and> getIssueType (Code 418) = ''Unknown Issue''"
  using fallback_table [of 503 301 418] by simp

text \<open>A server error other than 500 falls through to the last line of the priority table.\<close>

lemma priority_of_502: "determinePriorityFromStatus (Code 502) = ''Low''"
  by (simp add: determinePriorityFromStatus_def)

section \<open>Impact score\<close>

text \<open>
  Case-insensitive containment, as the claims word it: some substring of \<open>s\<close> equals \<open>p\<close> up
  to the case of its letters.
\<close>

definition contains_ci :: "string \<Rightarrow> string \<Rightarrow> bool" where
  "contains_ci s p = (\<exists>u w v. s = u @ w @ v \<and> toLowerCase w = toLowerCase p)"

lemma includes_lower_iff:
  assumes "toLowerCase p = p"
  shows "str_includes (toLowerCase s) p \<longleftrightarrow> contains_ci s p"
proof
  assume "str_includes (toLowerCase s) p"
  then obtain u v where "toLowerCase s = u @ p @ v"
    unfolding str_includes_iff by blast
  then have "map toLowerCaseChar s = u @ (p @ v)"
    by (simp only: toLowerCase_def)
  then obtain a r where 1: "s = a @ r" and 2: "p @ v = map toLowerCaseChar r"
    unfolding map_eq_append_conv by blast
  from 2 have "map toLowerCaseChar r = p @ v" by (rule sym)
  then obtain b c where 3: "r = b @ c" and 4: "p = map toLowerCaseChar b"
    unfolding map_eq_append_conv by blast
  have "s = a @ b @ c" using 1 3 by (simp only:)
  moreover have "toLowerCase b = toLowerCase p"
    using 4 assms by (simp only: toLowerCase_def)
  ultimately show "contains_ci s p"
    unfolding contains_ci_def by blast
next
  assume "contains_ci s p"
  then obtain u w v where 1: "s = u @ w @ v" and 2: "toLowerCase w = toLowerCase p"
    unfolding contains_ci_def by blast
  have "toLowerCase s = toLowerCase u @ toLowerCase w @ toLowerCase v"
    unfolding 1 toLowerCase_def by (simp only: map_append)
  then have "toLowerCase s = toLowerCase u @ p @ toLowerCase v"
    using 2 assms by (simp only:)
  then show "str_includes (toLowerCase s) p"
    unfolding str_includes_iff by (intro exI)
qed

lemma lower_patterns:
  "toLowerCase ''cta'' = ''cta''" "toLowerCase ''button'' = ''button''"
  "toLowerCase ''hero'' = ''hero''" "toLowerCase ''header'' = ''header''"
  "toLowerCase ''navigation'' = ''navigation''"
  by (simp_all add: toLowerCase_def toLowerCaseChar_def)

lemma statusBonus_cases:
  "statusBonus st =
     (if st = Code 404 then 30
      else if (\<exists>k. st = Code k \<and> 500 \<le> k) then 35
      else if st = Code 403 then 20
      else if (\<exists>k. st = Code k \<and> 300 \<le> k \<and> k < 400) then 10
      else 0)"
  by (cases st) (auto simp: statusBonus_def)

lemma contextBonus_cases:
  "contextBonus ctx =
     (if contains_ci ctx ''cta'' \<or> contains_ci ctx ''button'' then 20 else 0)
     + (if contains_ci ctx ''hero'' \<or> contains_ci ctx ''header'' then 15 else 0)
     + (if contains_ci ctx ''navigation'' then 10 else 0)"
  unfolding contextBonus_def
  by (simp only: includes_lower_iff [OF lower_patterns(1)] includes_lower_iff [OF lower_patterns(2)]
      includes_lower_iff [OF lower_patterns(3)] includes_lower_iff [OF lower_patterns(4)]
      includes_lower_iff [OF lower_patterns(5)])

lemma hero_example: "impactSum (Code 404) ''Hero CTA button'' 1 = 120"
  by (simp add: impactSum_def statusBonus_def contextBonus_def toLowerCase_def toLowerCaseChar_def
      char_of_eq_iff)

text \<open>
  C7, as stated, fails in its example: for a 404 that appears once with the context
  "Hero CTA button" the sum before clamping is 50 + 30 + 20 + 15 + 5 = 120, not 115 (the
  appearance term adds 5).
\<close>

theorem impact_sum_counterexample:
  "impactSum (Code 404) ''Hero CTA button'' 1 = 50 + 30 + 20 + 15 + 5
   \<and> impactSum (Code 404) ''Hero CTA button'' 1 \<noteq> 115"
  using hero_example by simp

text \<open>
  C7, amended: the impact score is 50, plus 30 for a 404, 35 for a numeric status of 500 or
  more, 20 for a 403, 10 for a 3xx; plus 20 if the context contains "cta" or "button"
  case-insensitively, plus 15 for "hero" or "header", plus 10 for "navigation"; plus
  \<open>min (n * 5) 20\<close>; clamped to the interval from 0 to 100. A 404 that appears once with the
  context "Hero CTA button" sums to 120 and has the score 100.
\<close>

theorem impact_score:
  "calculateImpactScore st ctx n =
     min (max (50
               + (if st = Code 404 then 30
                  else if (\<exists>k. st = Code k \<and> 500 \<le> k) then 35
                  else if st = Code 403 then 20
                  else if (\<exists>k. st = Code k \<and> 300 \<le> k \<and> k < 400) then 10
                  else 0)
               + ((if contains_ci ctx ''cta'' \<or> contains_ci ctx ''button'' then 20 else 0)
                  + (if contains_ci ctx ''hero'' \<or> contains_ci ctx ''header'' then 15 else 0)
                  + (if contains_ci ctx ''navigation'' then 10 else 0))
               + min (int n * 5) 20) 0) 100
   \<and> 0 \<le> calculateImpactScore st ctx n \<and> calculateImpactScore st ctx n \<le> 100
   \<and> impactSum (Code 404) ''Hero CTA button'' 1 = 120
   \<and> calculateImpactScore (Code 404) ''Hero CTA button'' 1 = 100"
proof -
  have "calculateImpactScore st ctx n =
          min (max (50 + statusBonus st + contextBonus ctx + min (int n * 5) 20) 0) 100"
    by (simp add: calculateImpactScore_def impactSum_def)
  moreover have "0 \<le> calculateImpactScore st ctx n \<and> calculateImpactScore st ctx n \<le> 100"
    by (simp add: calculateImpactScore_def)
  moreover have "calculateImpactScore (Code 404) ''Hero CTA button'' 1 = 100"
    using hero_example by (simp add: calculateImpactScore_def)
  ultimately show ?thesis
    by (simp only: statusBonus_cases contextBonus_cases hero_example simp_thms)
qed

section \<open>Verification of special schemes\<close>

text \<open>
  What it means for a string to match a sequence of quantified classes: it splits into one
  piece per item, each piece made of characters of the item's class and of a length the item
  allows. \<open>regex_test\<close> decides exactly that.
\<close>

definition item_ok :: "regex_item \<Rightarrow> string \<Rightarrow> bool" where
  "item_ok it w =
     (case it of (P, n, up) \<Rightarrow> list_all P w \<and> (if up then n \<le> length w else length w = n))"

definition matches :: "regex_item list \<Rightarrow> string \<Rightarrow> bool" where
  "matches items s = (\<exists>ws. list_all2 item_ok items ws \<and> s = concat ws)"

lemma matches_Nil: "matches [] s \<longleftrightarrow> s = []"
  by (simp add: matches_def)

lemma matches_Cons:
  "matches (it # items) s \<longleftrightarrow> (\<exists>w r. item_ok it w \<and> s = w @ r \<and> matches items r)"
proof
  assume "matches (it # items) s"
  then obtain w ws where "item_ok it w" "list_all2 item_ok items ws" "s = w @ concat ws"
    by (auto simp: matches_def list_all2_Cons1)
  then show "\<exists>w r. item_ok it w \<and> s = w @ r \<and> matches items r"
    unfolding matches_def by blast
next
  assume "\<exists>w r. item_ok it w \<and> s = w @ r \<and> matches items r"
  then obtain w ws where "item_ok it w" "list_all2 item_ok items ws" "s = concat (w # ws)"
    by (auto simp: matches_def)
  then have "list_all2 item_ok (it # items) (w # ws) \<and> s = concat (w # ws)"
    by simp
  then show "matches (it # items) s"
    unfolding matches_def by blast
qed

lemma item_ok_exact0: "item_ok (P, 0, False) w \<longleftrightarrow> w = []"
  by (auto simp: item_ok_def)

lemma item_ok_star: "item_ok (P, 0, True) w \<longleftrightarrow> list_all P w"
  by (simp add: item_ok_def)

lemma item_ok_Suc:
  "item_ok (P, Suc n, up) w \<longleftrightarrow> (\<exists>c w'. w = c # w' \<and> P c \<and> item_ok (P, n, up) w')"
  by (cases w) (auto simp: item_ok_def)

lemma regex_test_matches: "regex_test items s \<longleftrightarrow> matches items s"
proof (induction items s rule: regex_test.induct)
  case (1 s)
  then show ?case by (simp add: matches_Nil)
next
  case (2 P n up items)
  then show ?case by (simp add: matches_Cons item_ok_Suc)
next
  case (3 P n up items c cs)
  have "matches ((P, Suc n, up) # items) (c # cs) \<longleftrightarrow> P c \<and> matches ((P, n, up) # items) cs"
    (is "?L \<longleftrightarrow> ?R")
  proof
    assume ?L
    then show ?R by (auto simp: matches_Cons item_ok_Suc)
  next
    assume ?R
    then obtain w r where a: "P c" "item_ok (P, n, up) w" "cs = w @ r" "matches items r"
      by (auto simp: matches_Cons)
    then have "item_ok (P, Suc n, up) (c # w) \<and> c # cs = (c # w) @ r \<and> matches items r"
      by (simp add: item_ok_Suc)
    then show ?L unfolding matches_Cons [of "(P, Suc n, up)"] by blast
  qed
  with 3 show ?case by simp
next
  case (4 P items s)
  then show ?case by (simp add: matches_Cons item_ok_exact0)
next
  case (5 P items)
  then show ?case by (simp add: matches_Cons item_ok_star)
next
  case (6 P items c cs)
  have "matches ((P, 0, True) # items) (c # cs)
        \<longleftrightarrow> matches items (c # cs) \<or> (P c \<and> matches ((P, 0, True) # items) cs)"
    (is "?L \<longleftrightarrow> ?A \<or> ?B")
  proof
    assume ?L
    then obtain w r where a: "list_all P w" "c # cs = w @ r" "matches items r"
      by (auto simp: matches_Cons item_ok_star)
    show "?A \<or> ?B"
    proof (cases w)
      case Nil
      with a show ?thesis by simp
    next
      case (Cons d w')
      with a have "P c" "list_all P w'" "cs = w' @ r" by auto
      with a(3) have ?B unfolding matches_Cons item_ok_star by blast
      then show ?thesis ..
    qed
  next
    assume "?A \<or> ?B"
    then show ?L
    proof
      assume ?A
      then have "list_all P [] \<and> c # cs = [] @ (c # cs) \<and> matches items (c # cs)" by simp
      then show ?L unfolding matches_Cons [of "(P, 0, True)"] item_ok_star by blast
    next
      assume ?B
      then obtain w r where a: "P c" "list_all P w" "cs = w @ r" "matches items r"
        by (auto simp: matches_Cons item_ok_star)
      then have "list_all P (c # w) \<and> c # cs = (c # w) @ r \<and> matches items r" by simp
      then show ?L unfolding matches_Cons [of "(P, 0, True)"] item_ok_star by blast
    qed
  qed
  with 6 show ?case by simp
qed

lemma item_ok_literal: "item_ok ((\<lambda>d. d = c), Suc 0, False) w \<longleftrightarrow> w = [c]"
  by (cases w) (auto simp: item_ok_def)

lemma item_ok_plus: "item_ok (P, Suc 0, True) w \<longleftrightarrow> w \<noteq> [] \<and> list_all P w"
  by (cases w) (auto simp: item_ok_def)

lemma item_ok_two: "item_ok (P, 2, True) w \<longleftrightarrow> 2 \<le> length w \<and> list_all P w"
  by (auto simp: item_ok_def)

lemma matches_literal:
  "matches (literal p @ items) s \<longleftrightarrow> (\<exists>r. s = p @ r \<and> matches items r)"
proof (induction p arbitrary: s)
  case Nil
  then show ?case by (simp add: literal_def)
next
  case (Cons c p)
  have "matches (literal (c # p) @ items) s
        \<longleftrightarrow> (\<exists>r. s = c # r \<and> matches (literal p @ items) r)"
    by (simp add: literal_def matches_Cons item_ok_literal)
  also have "\<dots> \<longleftrightarrow> (\<exists>r. s = (c # p) @ r \<and> matches items r)"
    unfolding Cons.IH by auto
  finally show ?case .
qed

lemma matches_plus:
  "matches ([(P, Suc 0, True)] @ items) s
   \<longleftrightarrow> (\<exists>w r. s = w @ r \<and> w \<noteq> [] \<and> list_all P w \<and> matches items r)"
  unfolding append_Cons append_Nil matches_Cons [of "(P, Suc 0, True)"] item_ok_plus by blast

lemma matches_two_end: "matches [(P, 2, True)] s \<longleftrightarrow> 2 \<le> length s \<and> list_all P s"
  by (simp add: matches_Cons matches_Nil item_ok_two)

lemma emailPattern_language:
  "regex_test emailPattern url \<longleftrightarrow>
     (\<exists>l d t. url = ''mailto:'' @ l @ ''@'' @ d @ ''.'' @ t
        \<and> l \<noteq> [] \<and> list_all localChar l \<and> d \<noteq> [] \<and> list_all domainChar d
        \<and> 2 \<le> length t \<and> list_all isAlpha t)"
  (is "?L \<longleftrightarrow> ?R")
proof -
  have "?L \<longleftrightarrow>
    (\<exists>r. url = ''mailto:'' @ r \<and>
      (\<exists>l r1. r = l @ r1 \<and> l \<noteq> [] \<and> list_all localChar l \<and>
        (\<exists>r2. r1 = ''@'' @ r2 \<and>
          (\<exists>d r3. r2 = d @ r3 \<and> d \<noteq> [] \<and> list_all domainChar d \<and>
            (\<exists>t. r3 = ''.'' @ t \<and> 2 \<le> length t \<and> list_all isAlpha t)))))"
    unfolding regex_test_matches emailPattern_def One_nat_def
    by (simp only: matches_literal matches_plus matches_two_end)
  also have "\<dots> \<longleftrightarrow> ?R"
  proof
    assume "\<exists>r. url = ''mailto:'' @ r \<and>
      (\<exists>l r1. r = l @ r1 \<and> l \<noteq> [] \<and> list_all localChar l \<and>
        (\<exists>r2. r1 = ''@'' @ r2 \<and>
          (\<exists>d r3. r2 = d @ r3 \<and> d \<noteq> [] \<and> list_all domainChar d \<and>
            (\<exists>t. r3 = ''.'' @ t \<and> 2 \<le> length t \<and> list_all isAlpha t))))"
    then obtain l d t where "url = ''mailto:'' @ l @ ''@'' @ d @ ''.'' @ t"
      "l \<noteq> []" "list_all localChar l" "d \<noteq> []" "list_all domainChar d"
      "2 \<le> length t" "list_all isAlpha t"
      by blast
    then show ?R by blast
  next
    assume ?R
    then obtain l d t where a: "url = ''mailto:'' @ l @ ''@'' @ d @ ''.'' @ t"
      "l \<noteq> []" "list_all localChar l" "d \<noteq> []" "list_all domainChar d"
      "2 \<le> length t" "list_all isAlpha t"
      by blast
    show "\<exists>r. url = ''mailto:'' @ r \<and>
      (\<exists>l r1. r = l @ r1 \<and> l \<noteq> [] \<and> list_all localChar l \<and>
        (\<exists>r2. r1 = ''@'' @ r2 \<and>
          (\<exists>d r3. r2 = d @ r3 \<and> d \<noteq> [] \<and> list_all domainChar d \<and>
            (\<exists>t. r3 = ''.'' @ t \<and> 2 \<le> length t \<and> list_all isAlpha t))))"
      using a by blast
  qed
  finally show ?thesis .
qed

lemma mailto_valid: "regex_test emailPattern ''mailto:a@b.co''"
  by code_simp

lemma mailto_invalid: "\<not> regex_test emailPattern ''mailto:not-an-email''"
  by code_simp

lemma tracked_mailto:
  "isTrackingPixel ''mailto:someone@google-analytics.com?subject=Hi''"
  "\<not> regex_test emailPattern ''mailto:someone@google-analytics.com?subject=Hi''"
  by code_simp+

lemma untracked:
  "\<not> isTrackingPixel ''mailto:a@b.co''" "\<not> isTrackingPixel ''mailto:not-an-email''"
  "\<not> isTrackingPixel ''tel:+15550100''"
  by code_simp+

text \<open>
  C8, as stated, fails: the tracking-pixel test runs before the \<open>mailto:\<close> test, so a
  \<open>mailto:\<close> URL that contains a tracking pattern gets status 200 although it does not match
  the email pattern.
\<close>

theorem mailto_counterexample:
  "startsWith ''mailto:someone@google-analytics.com?subject=Hi'' ''mailto:''
   \<and> \<not> regex_test emailPattern ''mailto:someone@google-analytics.com?subject=Hi''
   \<and> (\<forall>net browser.
         status (snd (checkLinkStatus net ''mailto:someone@google-analytics.com?subject=Hi'' browser))
           = Code 200)"
  using tracked_mailto by (simp add: checkLinkStatus_def plain_info_def)

lemma mailto_branch:
  assumes "startsWith url ''mailto:''" and "\<not> isTrackingPixel url"
  shows "checkLinkStatus net url browser =
           ([], plain_info (if regex_test emailPattern url then Code 200 else Invalid)
                  (if regex_test emailPattern url then ''Valid Email'' else ''Malformed Email'') 0)"
proof -
  from assms(1) obtain v where "url = ''mailto:'' @ v"
    unfolding startsWith_iff by blast
  then have "\<not> startsWith url ''data:''" "\<not> startsWith url ''blob:''"
    by simp_all
  with assms show ?thesis
    by (simp add: checkLinkStatus_def)
qed

lemma tel_branch:
  assumes "startsWith url ''tel:''"
  shows "fst (checkLinkStatus net url browser) = []
         \<and> status (snd (checkLinkStatus net url browser)) = Code 200"
proof -
  from assms obtain v where "url = ''tel:'' @ v"
    unfolding startsWith_iff by blast
  then have "\<not> startsWith url ''data:''" "\<not> startsWith url ''blob:''"
    "\<not> startsWith url ''mailto:''"
    by simp_all
  with assms show ?thesis
    by (simp add: checkLinkStatus_def plain_info_def)
qed

text \<open>
  C8, amended: for every \<open>mailto:\<close> URL that contains no tracking-pixel pattern, verification
  returns status 200 if and only if the URL matches the email pattern (\<open>mailto:\<close>, a non-empty
  local part of letters, digits, \<open>.\<close>, \<open>_\<close>, \<open>-\<close>, an \<open>@\<close>, a non-empty domain of letters,
  digits, \<open>.\<close>, \<open>-\<close>, a dot and at least two letters), and the status \<open>Invalid\<close> otherwise; a
  \<open>mailto:\<close> URL that contains a tracking-pixel pattern gets the skip outcome with status 200;
  every \<open>tel:\<close> URL gets status 200; none of these performs network I/O. \<open>mailto:a@b.co\<close> is
  valid and \<open>mailto:not-an-email\<close> is invalid.
\<close>

theorem mailto_tel_verification:
  "(startsWith url ''mailto:'' \<and> \<not> isTrackingPixel url \<longrightarrow>
      fst (checkLinkStatus net url browser) = []
      \<and> (status (snd (checkLinkStatus net url browser)) = Code 200
           \<longleftrightarrow> regex_test emailPattern url)
      \<and> (status (snd (checkLinkStatus net url browser)) = Invalid
           \<longleftrightarrow> \<not> regex_test emailPattern url)
      \<and> (regex_test emailPattern url \<longleftrightarrow>
           (\<exists>l d t. url = ''mailto:'' @ l @ ''@'' @ d @ ''.'' @ t
              \<and> l \<noteq> [] \<and> list_all localChar l \<and> d \<noteq> [] \<and> list_all domainChar d
              \<and> 2 \<le> length t \<and> list_all isAlpha t)))
   \<and> (startsWith tracked ''mailto:'' \<and> isTrackingPixel tracked \<longrightarrow>
        fst (checkLinkStatus net tracked browser) = []
        \<and> status (snd (checkLinkStatus net tracked browser)) = Code 200
        \<and> skip (snd (checkLinkStatus net tracked browser)))
   \<and> (startsWith tel ''tel:'' \<longrightarrow>
        fst (checkLinkStatus net tel browser) = []
        \<and> status (snd (checkLinkStatus net tel browser)) = Code 200)
   \<and> status (snd (checkLinkStatus net ''mailto:a@b.co'' browser)) = Code 200
   \<and> status (snd (checkLinkStatus net ''mailto:not-an-email'' browser)) = Invalid"
proof -
  have "status (snd (checkLinkStatus net ''mailto:a@b.co'' browser)) = Code 200"
    using mailto_valid untracked(1)
    by (simp add: mailto_branch plain_info_def)
  moreover have "status (snd (checkLinkStatus net ''mailto:not-an-email'' browser)) = Invalid"
    using mailto_invalid untracked(2)
    by (simp add: mailto_branch plain_info_def)
  moreover have "startsWith tracked ''mailto:'' \<and> isTrackingPixel tracked \<longrightarrow>
        fst (checkLinkStatus net tracked browser) = []
        \<and> status (snd (checkLinkStatus net tracked browser)) = Code 200
        \<and> skip (snd (checkLinkStatus net tracked browser))"
    by (simp add: checkLinkStatus_def plain_info_def)
  moreover have "startsWith url ''mailto:'' \<and> \<not> isTrackingPixel url \<longrightarrow>
      fst (checkLinkStatus net url browser) = []
      \<and> (status (snd (checkLinkStatus net url browser)) = Code 200
           \<longleftrightarrow> regex_test emailPattern url)
      \<and> (status (snd (checkLinkStatus net url browser)) = Invalid
           \<longleftrightarrow> \<not> regex_test emailPattern url)"
    by (simp add: mailto_branch plain_info_def)
  ultimately show ?thesis
    using tel_branch [of tel net browser] emailPattern_language [of url] by blast
qed

theorem mailto_tel_verification_witness:
  "status (snd (checkLinkStatus (\<lambda>u. HttpThrows \<lparr>err_code = [], err_response = None, err_message = []\<rparr>)
                  ''mailto:x.y@mail.example.org'' None)) = Code 200
   \<and> skip (snd (checkLinkStatus (\<lambda>u. HttpThrows \<lparr>err_code = [], err_response = None, err_message = []\<rparr>)
                  ''mailto:someone@google-analytics.com?subject=Hi'' None))
   \<and> fst (checkLinkStatus (\<lambda>u. HttpThrows \<lparr>err_code = [], err_response = None, err_message = []\<rparr>)
                  ''tel:+15550100'' None) = []
   \<and> status (snd (checkLinkStatus (\<lambda>u. HttpThrows \<lparr>err_code = [], err_response = None, err_message = []\<rparr>)
                  ''tel:+15550100'' None)) = Code 200"
proof -
  have 1: "startsWith ''mailto:x.y@mail.example.org'' ''mailto:''
           \<and> \<not> isTrackingPixel ''mailto:x.y@mail.example.org''"
    by code_simp
  have 2: "regex_test emailPattern ''mailto:x.y@mail.example.org''"
    by code_simp
  have 3: "startsWith ''mailto:someone@google-analytics.com?subject=Hi'' ''mailto:''
           \<and> isTrackingPixel ''mailto:someone@google-analytics.com?subject=Hi''"
    using tracked_mailto(1) by simp
  have 4: "startsWith ''tel:+15550100'' ''tel:''" by simp
  show ?thesis
    using 1 2 3 4
      mailto_tel_verification [of "''mailto:x.y@mail.example.org''"
        "\<lambda>u. HttpThrows \<lparr>err_code = [], err_response = None, err_message = []\<rparr>" None
        "''mailto:someone@google-analytics.com?subject=Hi''" "''tel:+15550100''"]
    by blast
qed

section \<open>The scan loop, link by link\<close>

text \<open>
  The loop body read as functions of the link: the outcome of its verification, the analysis
  requested for it, whether it is pushed on \<open>results\<close>, the issue pushed (with the length of
  \<open>results\<close> at that moment) and the calls it logs. The lemmas below show that the loop computes
  exactly these.
\<close>

definition outcome :: "network \<Rightarrow> browser \<Rightarrow> link \<Rightarrow> status_info" where
  "outcome net b l = snd (checkLinkStatus net (l_url l) (Some b))"

definition appearancesOf :: "(string \<rightharpoonup> nat) \<Rightarrow> link \<Rightarrow> nat" where
  "appearancesOf ap l = (case ap (l_url l) of None \<Rightarrow> 0 | Some n \<Rightarrow> n)"

definition analysisOf :: "network \<Rightarrow> browser \<Rightarrow> analyzer \<Rightarrow> link \<Rightarrow> ai_result option" where
  "analysisOf net b ai l =
     (if needsAnalysis (outcome net b l) l
      then ai (l_text l) (l_url l) (l_context l) (status (outcome net b l))
      else None)"

definition isReported :: "network \<Rightarrow> browser \<Rightarrow> analyzer \<Rightarrow> link \<Rightarrow> bool" where
  "isReported net b ai l =
     (\<not> skip (outcome net b l)
      \<and> \<not> (status (outcome net b l) = Code 403 \<and> isAffiliate (outcome net b l))
      \<and> status (outcome net b l) \<noteq> Code 304
      \<and> (isActualIssue (outcome net b l) \<or> aiFlags (analysisOf net b ai l)))"

definition issueOf ::
  "network \<Rightarrow> browser \<Rightarrow> analyzer \<Rightarrow> capturer \<Rightarrow> (string \<rightharpoonup> nat) \<Rightarrow> nat \<Rightarrow> link \<Rightarrow> issue" where
  "issueOf net b ai cap ap k l =
     makeIssue k l (outcome net b l) (analysisOf net b ai l)
       (calculateImpactScore (status (outcome net b l)) (l_context l) (appearancesOf ap l))
       (appearancesOf ap l)
       (if shouldTakeScreenshot (outcome net b l)
        then cap (l_pageUrl l) (l_text l) (l_url l) else None)"

fun numbered :: "(nat \<Rightarrow> 'a \<Rightarrow> 'b) \<Rightarrow> nat \<Rightarrow> 'a list \<Rightarrow> 'b list" where
  "numbered f k [] = []"
| "numbered f k (x # xs) = f k x # numbered f (Suc k) xs"

definition callsFor :: "network \<Rightarrow> browser \<Rightarrow> analyzer \<Rightarrow> link \<Rightarrow> scan_event list" where
  "callsFor net b ai l =
     CheckLinkStatus (l_url l) (fst (checkLinkStatus net (l_url l) (Some b)))
     # (if isReported net b ai l \<and> shouldTakeScreenshot (outcome net b l)
        then [TakeErrorScreenshot (l_pageUrl l) (l_text l) (l_url l)] else [])"

lemma checkLink_results:
  "results (checkLink net b ai cap ap s l) =
     results s @ (if isReported net b ai l then [issueOf net b ai cap ap (length (results s)) l] else [])"
  by (simp add: checkLink_def reportLink_def isReported_def issueOf_def outcome_def analysisOf_def
      appearancesOf_def Let_def split: prod.split)

lemma checkLink_trace:
  "trace (checkLink net b ai cap ap s l) = trace s @ callsFor net b ai l"
  by (simp add: checkLink_def reportLink_def isReported_def callsFor_def outcome_def analysisOf_def
      Let_def split: prod.split)

lemma foldl_checkLink_results:
  "results (foldl (checkLink net b ai cap ap) s ls) =
     results s @ numbered (issueOf net b ai cap ap) (length (results s))
                   (filter (isReported net b ai) ls)"
  by (induction ls arbitrary: s) (simp_all add: checkLink_results)

lemma foldl_checkLink_trace:
  "trace (foldl (checkLink net b ai cap ap) s ls) = trace s @ concat (map (callsFor net b ai) ls)"
  by (induction ls arbitrary: s) (simp_all add: checkLink_trace)

lemma numbered_set: "r \<in> set (numbered f k xs) \<Longrightarrow> \<exists>j x. x \<in> set xs \<and> r = f j x"
proof (induction xs arbitrary: k)
  case Nil
  then show ?case by simp
next
  case (Cons a xs)
  from Cons.prems consider "r = f k a" | "r \<in> set (numbered f (Suc k) xs)" by auto
  then show ?case
  proof cases
    case 1
    then have "a \<in> set (a # xs) \<and> r = f k a" by simp
    then show ?thesis by blast
  next
    case 2
    then obtain j x where "x \<in> set xs" "r = f j x" using Cons.IH by blast
    then have "x \<in> set (a # xs) \<and> r = f j x" by simp
    then show ?thesis by blast
  qed
qed

lemma numbered_map: "(\<And>j x. g (f j x) = h x) \<Longrightarrow> map g (numbered f k xs) = map h xs"
  by (induction xs arbitrary: k) auto

lemma checkLinks_results:
  "results (checkLinks net b ai cap links) =
     numbered (issueOf net b ai cap (linkAppearances links)) 0
       (filter (isReported net b ai) (uniqueLinks links))"
  by (simp add: checkLinks_def foldl_checkLink_results)

lemma checkLinks_trace:
  "trace (checkLinks net b ai cap links) = concat (map (callsFor net b ai) (uniqueLinks links))"
  by (simp add: checkLinks_def foldl_checkLink_trace)

lemma foldl_countLink:
  "foldl countLink m links u =
     (if filter (\<lambda>l. l_url l = u) links = [] then m u
      else Some ((case m u of None \<Rightarrow> 0 | Some n \<Rightarrow> n) + length (filter (\<lambda>l. l_url l = u) links)))"
  by (induction links arbitrary: m) (auto simp: countLink_def)

lemma linkAppearances_count:
  "l \<in> set links \<Longrightarrow>
     linkAppearances links (l_url l) = Some (length (filter (\<lambda>x. l_url x = l_url l) links))"
  by (auto simp: linkAppearances_def foldl_countLink filter_empty_conv)

lemma foldl_insert_set:
  "set (foldl (\<lambda>acc x. if x \<in> set acc then acc else acc @ [x]) acc xs) = set acc \<union> set xs"
  by (induction xs arbitrary: acc) auto

lemma foldl_insert_distinct:
  "distinct acc \<Longrightarrow> distinct (foldl (\<lambda>acc x. if x \<in> set acc then acc else acc @ [x]) acc xs)"
  by (induction xs arbitrary: acc) auto

lemma insertionOrder_set: "set (insertionOrder xs) = set xs"
  by (simp add: insertionOrder_def foldl_insert_set)

lemma insertionOrder_distinct: "distinct (insertionOrder xs)"
  by (simp add: insertionOrder_def foldl_insert_distinct)

lemma find_url:
  assumes "u \<in> set (map l_url links)"
  shows "\<exists>l. find (\<lambda>l. l_url l = u) links = Some l \<and> l_url l = u \<and> l \<in> set links"
proof (cases "find (\<lambda>l. l_url l = u) links")
  case None
  with assms show ?thesis by (auto simp: find_None_iff)
next
  case (Some l)
  then show ?thesis by (auto simp: find_Some_iff)
qed

lemma map_filter_urls:
  "set us \<subseteq> set (map l_url links) \<Longrightarrow>
     map l_url (List.map_filter (\<lambda>u. find (\<lambda>l. l_url l = u) links) us) = us"
proof (induction us)
  case Nil
  then show ?case by (simp add: List.map_filter_simps)
next
  case (Cons u us)
  then obtain l where "find (\<lambda>l. l_url l = u) links = Some l" "l_url l = u"
    using find_url [of u links] by auto
  with Cons show ?case by (simp add: List.map_filter_simps)
qed

lemma uniqueLinks_urls: "map l_url (uniqueLinks links) = insertionOrder (map l_url links)"
  by (simp add: uniqueLinks_def map_filter_urls insertionOrder_set)

lemma uniqueLinks_distinct: "distinct (map l_url (uniqueLinks links))"
  by (simp add: uniqueLinks_urls insertionOrder_distinct)

lemma uniqueLinks_first:
  assumes "l \<in> set (uniqueLinks links)"
  shows "find (\<lambda>x. l_url x = l_url l) links = Some l"
proof -
  from assms obtain u where u: "find (\<lambda>x. l_url x = u) links = Some l"
    by (auto simp: uniqueLinks_def List.map_filter_def)
  then have "l_url l = u" by (auto simp: find_Some_iff)
  with u show ?thesis by simp
qed

lemma uniqueLinks_member: "l \<in> set (uniqueLinks links) \<Longrightarrow> l \<in> set links"
  using uniqueLinks_first [of l links] by (auto simp: find_Some_iff)

lemma insertByPriority_set: "set (insertByPriority a bs) = insert a (set bs)"
  by (induction bs) auto

lemma sortByPriority_set: "set (sortByPriority rs) = set rs"
  by (induction rs) (simp_all add: sortByPriority_def insertByPriority_set)

lemma insertByPriority_distinct:
  "distinct (map f (insertByPriority a bs)) \<longleftrightarrow> f a \<notin> f ` set bs \<and> distinct (map f bs)"
  by (induction bs) (auto simp: insertByPriority_set)

lemma sortByPriority_distinct:
  "distinct (map f (sortByPriority rs)) \<longleftrightarrow> distinct (map f rs)"
proof (induction rs)
  case Nil
  then show ?case by (simp add: sortByPriority_def)
next
  case (Cons a rs)
  have "sortByPriority (a # rs) = insertByPriority a (sortByPriority rs)"
    by (simp add: sortByPriority_def)
  with Cons show ?case
    by (simp add: insertByPriority_distinct sortByPriority_set)
qed

lemma sortByPriority_length: "length (sortByPriority rs) = length rs"
proof (induction rs)
  case Nil
  then show ?case by (simp add: sortByPriority_def)
next
  case (Cons a rs)
  have "length (insertByPriority a bs) = Suc (length bs)" for bs
    by (induction bs) auto
  with Cons show ?case by (simp add: sortByPriority_def)
qed

lemma scan_Inr:
  assumes "scan w domain = Inr rep"
  shows "\<exists>c. crawlWebsite (w_hostname w) (w_site w) domain 50 = Inr c
             \<and> rep = buildReport (visited c) (allLinks c)
                       (results (checkLinks (w_net w) (w_browser w) (w_analyze w) (w_capture w)
                                   (allLinks c)))"
  using assms by (auto simp: scan_def split: if_splits sum.splits)

section \<open>Issues and verification calls of a scan\<close>

text \<open>The URLs passed to \<open>checkLinkStatus\<close>, in the order of the calls.\<close>

fun verifiedUrls :: "scan_event list \<Rightarrow> string list" where
  "verifiedUrls [] = []"
| "verifiedUrls (CheckLinkStatus u ios # es) = u # verifiedUrls es"
| "verifiedUrls (TakeErrorScreenshot p t u # es) = verifiedUrls es"

lemma verifiedUrls_append: "verifiedUrls (xs @ ys) = verifiedUrls xs @ verifiedUrls ys"
  by (induction xs rule: verifiedUrls.induct) auto

lemma verifiedUrls_calls:
  "verifiedUrls (concat (map (callsFor net b ai) ls)) = map l_url ls"
  by (induction ls) (auto simp: verifiedUrls_append callsFor_def)

lemma issueOf_fields:
  "i_linkUrl (issueOf net b ai cap ap k l) = l_url l"
  "i_pageUrl (issueOf net b ai cap ap k l) = l_pageUrl l"
  "i_linkText (issueOf net b ai cap ap k l) = l_text l"
  "i_linkType (issueOf net b ai cap ap k l) = l_type l"
  "i_context (issueOf net b ai cap ap k l) = l_context l"
  "i_appearancesCount (issueOf net b ai cap ap k l) = appearancesOf ap l"
  "i_status (issueOf net b ai cap ap k l) = status (outcome net b l)"
  "i_statusText (issueOf net b ai cap ap k l) = statusText (outcome net b l)"
  by (simp_all add: issueOf_def makeIssue_def)

lemma reported_issue:
  assumes "r \<in> set (results (checkLinks net b ai cap links))"
  shows "\<exists>k l. l \<in> set (uniqueLinks links) \<and> isReported net b ai l
            \<and> r = issueOf net b ai cap (linkAppearances links) k l"
proof -
  from assms obtain k l where "l \<in> set (filter (isReported net b ai) (uniqueLinks links))"
    "r = issueOf net b ai cap (linkAppearances links) k l"
    unfolding checkLinks_results by (blast dest: numbered_set)
  then show ?thesis by auto
qed

lemma issue_urls:
  "map i_linkUrl (results (checkLinks net b ai cap links)) =
     map l_url (filter (isReported net b ai) (uniqueLinks links))"
  unfolding checkLinks_results by (rule numbered_map) (simp add: issueOf_fields)

lemma issue_urls_distinct: "distinct (map i_linkUrl (results (checkLinks net b ai cap links)))"
  unfolding issue_urls using uniqueLinks_distinct [of links]
  by (simp add: distinct_map_filter)

lemma numbered_member: "x \<in> set xs \<Longrightarrow> \<exists>j. f j x \<in> set (numbered f k xs)"
proof (induction xs arbitrary: k)
  case Nil
  then show ?case by simp
next
  case (Cons a xs)
  show ?case
  proof (cases "x = a")
    case True
    then have "f k x \<in> set (numbered f k (a # xs))" by simp
    then show ?thesis by blast
  next
    case False
    with Cons.prems have "x \<in> set xs" by simp
    then obtain j where "f j x \<in> set (numbered f (Suc k) xs)" using Cons.IH by blast
    then have "f j x \<in> set (numbered f k (a # xs))" by simp
    then show ?thesis by blast
  qed
qed

lemma reported_link_has_issue:
  assumes "l \<in> set (uniqueLinks links)" and "isReported net b ai l"
  shows "\<exists>k. issueOf net b ai cap (linkAppearances links) k l
               \<in> set (results (checkLinks net b ai cap links))"
  unfolding checkLinks_results using assms by (simp add: numbered_member)

lemma first_reference:
  assumes "l \<in> set links"
  shows "\<exists>l0. l0 \<in> set (uniqueLinks links) \<and> l_url l0 = l_url l"
proof -
  from assms have "l_url l \<in> set (insertionOrder (map l_url links))"
    by (simp add: insertionOrder_set)
  then have "l_url l \<in> set (map l_url (uniqueLinks links))"
    by (simp add: uniqueLinks_urls)
  then show ?thesis by auto
qed

lemma browser_checked:
  assumes "checkLinkStatus net url (Some b) = ([BrowserGoto url], si)"
  shows "isAffiliateLink url" and "si = snd (affiliateCheck url b)"
    and "\<not> skip si" and "isAffiliate si"
    and "treatAsWorking si \<longleftrightarrow> status si = Code 403"
proof -
  have *: "isAffiliateLink url \<and> si = snd (affiliateCheck url b)"
    using assms
    by (auto simp: checkLinkStatus_def standardCheck_def affiliateCheck_def Let_def
        split: if_splits http_result.splits)
  then show "isAffiliateLink url" and "si = snd (affiliateCheck url b)" by simp_all
  from * show "\<not> skip si" and "isAffiliate si" and "treatAsWorking si \<longleftrightarrow> status si = Code 403"
    by (auto simp: affiliateCheck_def checkLinkWithBrowser_def Let_def split: browser_result.splits)
qed

section \<open>A worked scan\<close>

text \<open>
  A small site: the root page links twice to a page that answers 404, to an "about" page, to
  two affiliate redirectors (the browser gets 404 from one and 403 from the other) and shows an
  image that answers 502; the "about" page links to the 404 page again, to the root and to a
  page whose navigation times out. No analysis is available and every capture succeeds.
\<close>

definition demo_hostname :: url_parser where
  "demo_hostname u =
     (if startsWith u ''http://a.test/'' then Some ''a.test''
      else if startsWith u ''http://shop.test/'' then Some ''shop.test''
      else None)"

definition demo_site :: site where
  "demo_site u =
     (if u = ''http://a.test/'' then
        Loaded
          [\<lparr>pl_url = ''http://a.test/gone'', pl_text = ''Docs'', pl_context = ''nav.menu'',
            pl_type = LinkT\<rparr>,
           \<lparr>pl_url = ''http://a.test/gone'', pl_text = ''Docs again'', pl_context = ''footer'',
            pl_type = LinkT\<rparr>,
           \<lparr>pl_url = ''http://a.test/about'', pl_text = ''About'', pl_context = ''nav.menu'',
            pl_type = LinkT\<rparr>,
           \<lparr>pl_url = ''http://shop.test/aff?id=1'', pl_text = ''Buy'', pl_context = ''main'',
            pl_type = LinkT\<rparr>,
           \<lparr>pl_url = ''http://shop.test/goto/deal'', pl_text = ''Deal'', pl_context = ''aside'',
            pl_type = LinkT\<rparr>,
           \<lparr>pl_url = ''http://a.test/logo.png'', pl_text = ''Image'', pl_context = ''main'',
            pl_type = ImageT\<rparr>]
      else if u = ''http://a.test/about'' then
        Loaded
          [\<lparr>pl_url = ''http://a.test/gone'', pl_text = ''Docs (about)'', pl_context = ''main'',
            pl_type = LinkT\<rparr>,
           \<lparr>pl_url = ''http://a.test/'', pl_text = ''Home'', pl_context = ''nav.menu'',
            pl_type = LinkT\<rparr>,
           \<lparr>pl_url = ''http://a.test/slow'', pl_text = ''Slow'', pl_context = ''main'',
            pl_type = LinkT\<rparr>]
      else if u = ''http://a.test/slow'' then GotoFails
      else Loaded [])"

definition demo_net :: network where
  "demo_net u =
     (if u = ''http://a.test/gone''
        then HttpResponse \<lparr>resp_status = 404, resp_statusText = ''Not Found'', resp_elapsed = 12,
                           resp_redirectCount = None, resp_responseUrl = None\<rparr>
      else if u = ''http://a.test/logo.png''
        then HttpResponse \<lparr>resp_status = 502, resp_statusText = ''Bad Gateway'', resp_elapsed = 30,
                           resp_redirectCount = None, resp_responseUrl = None\<rparr>
      else if u = ''http://a.test/slow''
        then HttpThrows \<lparr>err_code = ''ETIMEDOUT'', err_response = None, err_message = ''timeout''\<rparr>
      else HttpResponse \<lparr>resp_status = 200, resp_statusText = ''OK'', resp_elapsed = 8,
                          resp_redirectCount = None, resp_responseUrl = None\<rparr>)"

definition demo_browser :: browser where
  "demo_browser u =
     (if u = ''http://shop.test/aff?id=1'' then BrowserResponse 404 ''Not Found'' u 40
      else if u = ''http://shop.test/goto/deal'' then BrowserResponse 403 ''Forbidden'' u 35
      else BrowserResponse 200 ''OK'' u 20)"

definition demo_analyze :: analyzer where
  "demo_analyze linkText linkUrl ctx st = None"

definition demo_capture :: capturer where
  "demo_capture pageUrl linkText linkUrl = Some ''png''"

definition demo_world :: world where
  "demo_world =
     \<lparr>w_hostname = demo_hostname, w_site = demo_site, w_net = demo_net, w_browser = demo_browser,
      w_analyze = demo_analyze, w_capture = demo_capture\<rparr>"

definition demo_pages :: "string list" where
  "demo_pages =
     [''http://a.test/'', ''http://a.test/gone'', ''http://a.test/about'', ''http://a.test/slow'']"

definition demo_links :: "link list" where
  "demo_links =
     [\<lparr>l_url = ''http://a.test/gone'', l_text = ''Docs'', l_context = ''nav.menu'',
       l_type = LinkT, l_pageUrl = ''http://a.test/''\<rparr>,
      \<lparr>l_url = ''http://a.test/gone'', l_text = ''Docs again'', l_context = ''footer'',
       l_type = LinkT, l_pageUrl = ''http://a.test/''\<rparr>,
      \<lparr>l_url = ''http://a.test/about'', l_text = ''About'', l_context = ''nav.menu'',
       l_type = LinkT, l_pageUrl = ''http://a.test/''\<rparr>,
      \<lparr>l_url = ''http://shop.test/aff?id=1'', l_text = ''Buy'', l_context = ''main'',
       l_type = LinkT, l_pageUrl = ''http://a.test/''\<rparr>,
      \<lparr>l_url = ''http://shop.test/goto/deal'', l_text = ''Deal'', l_context = ''aside'',
       l_type = LinkT, l_pageUrl = ''http://a.test/''\<rparr>,
      \<lparr>l_url = ''http://a.test/logo.png'', l_text = ''Image'', l_context = ''main'',
       l_type = ImageT, l_pageUrl = ''http://a.test/''\<rparr>,
      \<lparr>l_url = ''http://a.test/gone'', l_text = ''Docs (about)'', l_context = ''main'',
       l_type = LinkT, l_pageUrl = ''http://a.test/about''\<rparr>,
      \<lparr>l_url = ''http://a.test/'', l_text = ''Home'', l_context = ''nav.menu'',
       l_type = LinkT, l_pageUrl = ''http://a.test/about''\<rparr>,
      \<lparr>l_url = ''http://a.test/slow'', l_text = ''Slow'', l_context = ''main'',
       l_type = LinkT, l_pageUrl = ''http://a.test/about''\<rparr>]"

definition demo_events :: "crawl_event list" where
  "demo_events =
     [Visit ''http://a.test/'', Goto ''http://a.test/'',
      Push ''http://a.test/'' ''http://a.test/gone'',
      Push ''http://a.test/'' ''http://a.test/about'',
      Visit ''http://a.test/gone'', Goto ''http://a.test/gone'',
      Visit ''http://a.test/about'', Goto ''http://a.test/about'',
      Push ''http://a.test/about'' ''http://a.test/slow'',
      Visit ''http://a.test/slow'', Goto ''http://a.test/slow'']"

definition demo_crawl :: crawl_state where
  "demo_crawl = \<lparr>visited = demo_pages, toVisit = [], allLinks = demo_links, events = demo_events\<rparr>"

definition demo_issue_gone :: issue where
  "demo_issue_gone =
     \<lparr>i_id = 1, i_pageUrl = ''http://a.test/'', i_linkText = ''Docs'',
      i_linkUrl = ''http://a.test/gone'', i_status = Code 404, i_statusText = ''Not Found'',
      i_responseTime = 12, i_redirectCount = 0, i_finalUrl = ''http://a.test/gone'',
      i_priority = ''Critical'', i_type = ''Broken Link (404)'', i_context = ''nav.menu'',
      i_aiAnalysis = ''Page not found (404). This link is broken and leads nowhere.'',
      i_suggestedFix = None, i_impactScore = 95, i_appearancesCount = 3, i_linkType = LinkT,
      i_screenshot = Some ''png''\<rparr>"

definition demo_issue_aff :: issue where
  "demo_issue_aff =
     \<lparr>i_id = 2, i_pageUrl = ''http://a.test/'', i_linkText = ''Buy'',
      i_linkUrl = ''http://shop.test/aff?id=1'', i_status = Code 404, i_statusText = ''Not Found'',
      i_responseTime = 40, i_redirectCount = 0, i_finalUrl = ''http://shop.test/aff?id=1'',
      i_priority = ''Critical'', i_type = ''Broken Link (404)'', i_context = ''main'',
      i_aiAnalysis = ''Page not found (404). This link is broken and leads nowhere.''
        @ '' [Affiliate link - only checked if it opens, destination not scanned]'',
      i_suggestedFix = None, i_impactScore = 85, i_appearancesCount = 1, i_linkType = LinkT,
      i_screenshot = Some ''png''\<rparr>"

definition demo_issue_logo :: issue where
  "demo_issue_logo =
     \<lparr>i_id = 3, i_pageUrl = ''http://a.test/'', i_linkText = ''Image'',
      i_linkUrl = ''http://a.test/logo.png'', i_status = Code 502, i_statusText = ''Bad Gateway'',
      i_responseTime = 30, i_redirectCount = 0, i_finalUrl = ''http://a.test/logo.png'',
      i_priority = ''Low'', i_type = ''Server Error (500+)'', i_context = ''main'',
      i_aiAnalysis = ''Link returned 502 status'',
      i_suggestedFix = None, i_impactScore = 90, i_appearancesCount = 1, i_linkType = ImageT,
      i_screenshot = None\<rparr>"

definition demo_issue_slow :: issue where
  "demo_issue_slow =
     \<lparr>i_id = 4, i_pageUrl = ''http://a.test/about'', i_linkText = ''Slow'',
      i_linkUrl = ''http://a.test/slow'', i_status = TIMEOUT, i_statusText = ''Request timeout'',
      i_responseTime = 10000, i_redirectCount = 0, i_finalUrl = ''http://a.test/slow'',
      i_priority = ''High'', i_type = ''Timeout Error'', i_context = ''main'',
      i_aiAnalysis = ''Request timeout. The page took too long to respond.'',
      i_suggestedFix = None, i_impactScore = 55, i_appearancesCount = 1, i_linkType = LinkT,
      i_screenshot = Some ''png''\<rparr>"

definition demo_trace :: "scan_event list" where
  "demo_trace =
     [CheckLinkStatus ''http://a.test/gone'' [HttpGet ''http://a.test/gone''],
      TakeErrorScreenshot ''http://a.test/'' ''Docs'' ''http://a.test/gone'',
      CheckLinkStatus ''http://a.test/about'' [HttpGet ''http://a.test/about''],
      CheckLinkStatus ''http://shop.test/aff?id=1'' [BrowserGoto ''http://shop.test/aff?id=1''],
      TakeErrorScreenshot ''http://a.test/'' ''Buy'' ''http://shop.test/aff?id=1'',
      CheckLinkStatus ''http://shop.test/goto/deal'' [BrowserGoto ''http://shop.test/goto/deal''],
      CheckLinkStatus ''http://a.test/logo.png'' [HttpGet ''http://a.test/logo.png''],
      CheckLinkStatus ''http://a.test/'' [HttpGet ''http://a.test/''],
      CheckLinkStatus ''http://a.test/slow'' [HttpGet ''http://a.test/slow''],
      TakeErrorScreenshot ''http://a.test/about'' ''Slow'' ''http://a.test/slow'']"

definition demo_report :: report where
  "demo_report =
     buildReport demo_pages demo_links
       [demo_issue_gone, demo_issue_aff, demo_issue_logo, demo_issue_slow]"

lemma demo_crawl_value:
  "crawlWebsite demo_hostname demo_site ''http://a.test/'' 50 = Inr demo_crawl"
  by code_simp

lemma demo_check_value:
  "checkLinks demo_net demo_browser demo_analyze demo_capture demo_links =
     \<lparr>results = [demo_issue_gone, demo_issue_aff, demo_issue_logo, demo_issue_slow],
      trace = demo_trace\<rparr>"
  by code_simp

lemma demo_scan: "scan demo_world ''http://a.test/'' = Inr demo_report"
  by (simp add: scan_def demo_world_def demo_crawl_value demo_check_value demo_report_def
      demo_crawl_def demo_hostname_def)

lemma demo_results:
  "rep_results demo_report = [demo_issue_gone, demo_issue_aff, demo_issue_slow, demo_issue_logo]"
  by code_simp

lemma demo_world_sel:
  "w_hostname demo_world = demo_hostname" "w_site demo_world = demo_site"
  "w_net demo_world = demo_net" "w_browser demo_world = demo_browser"
  "w_analyze demo_world = demo_analyze" "w_capture demo_world = demo_capture"
  by (simp_all add: demo_world_def)

lemma demo_member:
  "demo_issue_gone \<in> set (rep_results demo_report)"
  "demo_issue_aff \<in> set (rep_results demo_report)"
  "demo_issue_logo \<in> set (rep_results demo_report)"
  by (simp_all add: demo_results)

text \<open>The same affiliate link on a one-link site, with an analysis that carries a priority.\<close>

definition enriching :: analyzer where
  "enriching linkText linkUrl ctx st =
     Some \<lparr>ai_analysis = ''The partner page was removed.'', ai_suggestedFix = None,
           ai_issueType = ''Broken Link'', ai_priority = ''Low''\<rparr>"

definition enriched_world :: world where
  "enriched_world =
     \<lparr>w_hostname = demo_hostname,
      w_site = (\<lambda>u. if u = ''http://a.test/''
                     then Loaded [\<lparr>pl_url = ''http://shop.test/aff?id=1'', pl_text = ''Buy'',
                                    pl_context = ''main'', pl_type = LinkT\<rparr>]
                     else Loaded []),
      w_net = demo_net, w_browser = demo_browser, w_analyze = enriching,
      w_capture = demo_capture\<rparr>"

lemma demo_affiliate_checks:
  "checkLinkStatus demo_net ''http://shop.test/aff?id=1'' (Some demo_browser) =
     ([BrowserGoto ''http://shop.test/aff?id=1''],
      \<lparr>status = Code 404, statusText = ''Not Found'', responseTime = 40,
       redirectCount = Some 0, finalUrl = Some ''http://shop.test/aff?id=1'',
       checkedWithBrowser = True, isAffiliate = True, treatAsWorking = False, skip = False\<rparr>)"
  "checkLinkStatus demo_net ''http://shop.test/goto/deal'' (Some demo_browser) =
     ([BrowserGoto ''http://shop.test/goto/deal''],
      \<lparr>status = Code 403, statusText = ''Anti-bot protection (link works in browsers)'',
       responseTime = 35, redirectCount = Some 0, finalUrl = Some ''http://shop.test/goto/deal'',
       checkedWithBrowser = True, isAffiliate = True, treatAsWorking = True, skip = False\<rparr>)"
  by code_simp+

section \<open>Appearance counts\<close>

text \<open>
  The count attached to an issue is computed by \<open>linkAppearances\<close>, which adds one for every
  reference: for every reported issue it is the number of references, over all crawled pages,
  whose target is the issue's URL.
\<close>

lemma appearances_count:
  assumes "scan w domain = Inr rep" and "r \<in> set (rep_results rep)"
  shows "\<exists>c. crawlWebsite (w_hostname w) (w_site w) domain 50 = Inr c
           \<and> i_appearancesCount r = length (filter (\<lambda>l. l_url l = i_linkUrl r) (allLinks c))"
proof -
  from assms(1) obtain c where c: "crawlWebsite (w_hostname w) (w_site w) domain 50 = Inr c"
    and rep: "rep = buildReport (visited c) (allLinks c)
                (results (checkLinks (w_net w) (w_browser w) (w_analyze w) (w_capture w) (allLinks c)))"
    using scan_Inr by blast
  from assms(2) have "r \<in> set (results (checkLinks (w_net w) (w_browser w) (w_analyze w)
                                    (w_capture w) (allLinks c)))"
    by (simp add: rep buildReport_def sortByPriority_set)
  then obtain k l where l: "l \<in> set (uniqueLinks (allLinks c))"
    and r: "r = issueOf (w_net w) (w_browser w) (w_analyze w) (w_capture w)
                  (linkAppearances (allLinks c)) k l"
    using reported_issue by blast
  from l have "l \<in> set (allLinks c)" by (rule uniqueLinks_member)
  then have "appearancesOf (linkAppearances (allLinks c)) l
               = length (filter (\<lambda>x. l_url x = l_url l) (allLinks c))"
    by (simp add: appearancesOf_def linkAppearances_count)
  with r have "i_appearancesCount r = length (filter (\<lambda>x. l_url x = i_linkUrl r) (allLinks c))"
    by (simp add: issueOf_fields)
  with c show ?thesis by blast
qed

lemma appearances_count_demo:
  "scan demo_world ''http://a.test/'' = Inr demo_report
   \<and> demo_issue_gone \<in> set (rep_results demo_report)
   \<and> i_appearancesCount demo_issue_gone
       = length (filter (\<lambda>l. l_url l = i_linkUrl demo_issue_gone) demo_links)"
  using appearances_count [OF demo_scan demo_member(1)]
  by (simp add: demo_scan demo_member demo_world_sel demo_crawl_value demo_crawl_def)

text \<open>
  C5 on a URL that one page references twice: \<open>http://a.test/gone\<close> is referenced twice on
  the root page and once on the "about" page, so it appears on 2 pages, and the issue reported
  for it carries the appearance count 3. The interface that displays the count prints it as a
  number of pages.
\<close>

theorem appearances_counted_per_reference:
  "scan demo_world ''http://a.test/'' = Inr demo_report
   \<and> demo_issue_gone \<in> set (rep_results demo_report)
   \<and> i_linkUrl demo_issue_gone = ''http://a.test/gone''
   \<and> i_appearancesCount demo_issue_gone = 3
   \<and> remdups (map l_pageUrl (filter (\<lambda>l. l_url l = ''http://a.test/gone'') demo_links))
       = [''http://a.test/'', ''http://a.test/about'']
   \<and> card (l_pageUrl ` {l \<in> set demo_links. l_url l = ''http://a.test/gone''}) = 2"
proof -
  have 1: "remdups (map l_pageUrl (filter (\<lambda>l. l_url l = ''http://a.test/gone'') demo_links))
       = [''http://a.test/'', ''http://a.test/about'']"
    by (simp add: demo_links_def)
  have "l_pageUrl ` {l \<in> set demo_links. l_url l = ''http://a.test/gone''}
          = set (remdups (map l_pageUrl (filter (\<lambda>l. l_url l = ''http://a.test/gone'') demo_links)))"
    by auto
  then have "card (l_pageUrl ` {l \<in> set demo_links. l_url l = ''http://a.test/gone''}) = 2"
    unfolding 1 by simp
  with 1 show ?thesis
    by (simp add: demo_scan demo_member) (simp add: demo_issue_gone_def)
qed

section \<open>One verification and one issue per URL\<close>

text \<open>
  C9: in a scan, every URL found by the crawl is verified exactly once, no two issues of the
  final list have the same URL, and each issue's page URL, link text, reference kind and
  context are those of the first reference with that URL in the order of discovery.
\<close>

theorem one_issue_per_url:
  assumes "scan w domain = Inr rep"
  shows "\<exists>c. crawlWebsite (w_hostname w) (w_site w) domain 50 = Inr c
           \<and> distinct (map i_linkUrl (rep_results rep))
           \<and> distinct (verifiedUrls (trace (checkLinks (w_net w) (w_browser w) (w_analyze w)
                                               (w_capture w) (allLinks c))))
           \<and> set (verifiedUrls (trace (checkLinks (w_net w) (w_browser w) (w_analyze w)
                                          (w_capture w) (allLinks c))))
               = l_url ` set (allLinks c)
           \<and> (\<forall>r \<in> set (rep_results rep).
                 \<exists>l. find (\<lambda>x. l_url x = i_linkUrl r) (allLinks c) = Some l
                     \<and> i_pageUrl r = l_pageUrl l \<and> i_linkText r = l_text l
                     \<and> i_linkType r = l_type l \<and> i_context r = l_context l)"
proof -
  from assms obtain c where c: "crawlWebsite (w_hostname w) (w_site w) domain 50 = Inr c"
    and rep: "rep = buildReport (visited c) (allLinks c)
                (results (checkLinks (w_net w) (w_browser w) (w_analyze w) (w_capture w) (allLinks c)))"
    using scan_Inr by blast
  let ?S = "checkLinks (w_net w) (w_browser w) (w_analyze w) (w_capture w) (allLinks c)"
  have res: "rep_results rep = sortByPriority (results ?S)"
    by (simp add: rep buildReport_def)
  have 1: "distinct (map i_linkUrl (rep_results rep))"
    by (simp add: res sortByPriority_distinct issue_urls_distinct)
  have v: "verifiedUrls (trace ?S) = insertionOrder (map l_url (allLinks c))"
    by (simp add: checkLinks_trace verifiedUrls_calls uniqueLinks_urls)
  have 2: "distinct (verifiedUrls (trace ?S))"
    by (simp add: v insertionOrder_distinct)
  have 3: "set (verifiedUrls (trace ?S)) = l_url ` set (allLinks c)"
    by (simp add: v insertionOrder_set)
  have 4: "\<exists>l. find (\<lambda>x. l_url x = i_linkUrl r) (allLinks c) = Some l
             \<and> i_pageUrl r = l_pageUrl l \<and> i_linkText r = l_text l
             \<and> i_linkType r = l_type l \<and> i_context r = l_context l"
    if "r \<in> set (rep_results rep)" for r
  proof -
    from that have "r \<in> set (results ?S)"
      by (simp add: res sortByPriority_set)
    then obtain k l where l: "l \<in> set (uniqueLinks (allLinks c))"
      and r: "r = issueOf (w_net w) (w_browser w) (w_analyze w) (w_capture w)
                    (linkAppearances (allLinks c)) k l"
      using reported_issue by blast
    from l have "find (\<lambda>x. l_url x = l_url l) (allLinks c) = Some l"
      by (rule uniqueLinks_first)
    with r show ?thesis by (simp add: issueOf_fields)
  qed
  from c 1 2 3 4 show ?thesis by blast
qed

theorem one_issue_per_url_witness:
  "scan demo_world ''http://a.test/'' = Inr demo_report
   \<and> distinct (map i_linkUrl (rep_results demo_report))
   \<and> demo_issue_gone \<in> set (rep_results demo_report)
   \<and> (\<exists>l. find (\<lambda>x. l_url x = i_linkUrl demo_issue_gone) demo_links = Some l
          \<and> i_pageUrl demo_issue_gone = l_pageUrl l \<and> i_linkText demo_issue_gone = l_text l
          \<and> i_linkType demo_issue_gone = l_type l \<and> i_context demo_issue_gone = l_context l)
   \<and> i_pageUrl demo_issue_gone = ''http://a.test/''
   \<and> i_linkText demo_issue_gone = ''Docs''"
proof -
  from one_issue_per_url [OF demo_scan]
  have "distinct (map i_linkUrl (rep_results demo_report))
        \<and> (\<forall>r \<in> set (rep_results demo_report).
              \<exists>l. find (\<lambda>x. l_url x = i_linkUrl r) demo_links = Some l
                  \<and> i_pageUrl r = l_pageUrl l \<and> i_linkText r = l_text l
                  \<and> i_linkType r = l_type l \<and> i_context r = l_context l)"
    by (simp add: demo_world_sel demo_crawl_value demo_crawl_def)
  with demo_member(1) show ?thesis
    by (auto simp: demo_scan) (simp_all add: demo_issue_gone_def)
qed

section \<open>Affiliate links\<close>

text \<open>
  C2, as stated, fails in its last part: an affiliate link whose browser verification returns
  404 is reported, but with the priority the analysis gives when there is one, here Low.
\<close>

theorem affiliate_404_counterexample:
  "isAffiliateLink ''http://shop.test/aff?id=1''
   \<and> fst (checkLinkStatus (w_net enriched_world) ''http://shop.test/aff?id=1''
            (Some (w_browser enriched_world))) = [BrowserGoto ''http://shop.test/aff?id=1'']
   \<and> (case scan enriched_world ''http://a.test/'' of
         Inr rep \<Rightarrow> map (\<lambda>r. (i_linkUrl r, i_status r, i_priority r)) (rep_results rep)
       | Inl e \<Rightarrow> [])
       = [(''http://shop.test/aff?id=1'', Code 404, ''Low'')]"
  by code_simp

text \<open>
  C2, amended: a link whose verification went through the browser is an affiliate link. If the
  browser returned 403, the outcome has \<open>treatAsWorking\<close> set and no issue of the final list has
  that URL. If it returned another status that is neither a success nor a 3xx, the final list
  has an issue for the URL with that status and status text, and its priority is exactly the
  priority of the analysis requested for the first reference with that URL when that analysis
  exists and has a non-empty priority, and the fallback priority of the status otherwise; for
  a 404 the fallback priority is Critical.
\<close>

theorem affiliate_outcomes:
  assumes "scan w domain = Inr rep"
    and "crawlWebsite (w_hostname w) (w_site w) domain 50 = Inr c"
    and "l \<in> set (allLinks c)"
    and "checkLinkStatus (w_net w) (l_url l) (Some (w_browser w)) = ([BrowserGoto (l_url l)], si)"
  shows "isAffiliateLink (l_url l)
     \<and> (status si = Code 403 \<longrightarrow>
          treatAsWorking si \<and> l_url l \<notin> i_linkUrl ` set (rep_results rep))
     \<and> (status si \<noteq> Code 403 \<and> \<not> isSuccessStatus (status si)
          \<and> \<not> (status_ge (status si) 300 \<and> status_lt (status si) 400) \<longrightarrow>
          (\<exists>first. find (\<lambda>x. l_url x = l_url l) (allLinks c) = Some first
             \<and> (\<exists>r \<in> set (rep_results rep).
                   i_linkUrl r = l_url l \<and> i_status r = status si
                   \<and> i_statusText r = statusText si
                   \<and> i_priority r =
                       (case w_analyze w (l_text first) (l_url l) (l_context first) (status si) of
                          None \<Rightarrow> determinePriorityFromStatus (status si)
                        | Some a \<Rightarrow> if ai_priority a = []
                                    then determinePriorityFromStatus (status si)
                                    else ai_priority a))))
     \<and> (status si = Code 404 \<longrightarrow>
          (\<exists>first. find (\<lambda>x. l_url x = l_url l) (allLinks c) = Some first
             \<and> (\<exists>r \<in> set (rep_results rep).
                   i_linkUrl r = l_url l \<and> i_status r = Code 404
                   \<and> i_priority r =
                       (case w_analyze w (l_text first) (l_url l) (l_context first) (Code 404) of
                          None \<Rightarrow> ''Critical''
                        | Some a \<Rightarrow> if ai_priority a = [] then ''Critical''
                                    else ai_priority a))))"
proof -
  let ?net = "w_net w" and ?b = "w_browser w" and ?ai = "w_analyze w" and ?cap = "w_capture w"
  let ?links = "allLinks c"
  let ?S = "checkLinks ?net ?b ?ai ?cap ?links"
  from assms(1,2) have res: "rep_results rep = sortByPriority (results ?S)"
    using scan_Inr [OF assms(1)] by (auto simp: buildReport_def)
  from assms(3) obtain l0 where l0: "l0 \<in> set (uniqueLinks ?links)" and u: "l_url l0 = l_url l"
    using first_reference by blast
  have first: "find (\<lambda>x. l_url x = l_url l) ?links = Some l0"
    using uniqueLinks_first [OF l0] by (simp add: u)
  have out: "outcome ?net ?b l0 = si"
    by (simp add: outcome_def u assms(4))
  note bc = browser_checked [OF assms(4)]
  have absent: "l_url l \<notin> i_linkUrl ` set (rep_results rep)" if "status si = Code 403"
  proof
    assume "l_url l \<in> i_linkUrl ` set (rep_results rep)"
    then obtain r where "r \<in> set (results ?S)" "i_linkUrl r = l_url l"
      by (auto simp: res sortByPriority_set)
    then obtain k l' where l': "l' \<in> set (uniqueLinks ?links)" "isReported ?net ?b ?ai l'"
      "l_url l' = l_url l"
      using reported_issue [of r ?net ?b ?ai ?cap ?links] by (auto simp: issueOf_fields)
    have "inj_on l_url (set (uniqueLinks ?links))"
      using uniqueLinks_distinct [of ?links] by (simp add: distinct_map)
    moreover have "l_url l' = l_url l0" using l'(3) u by simp
    ultimately have "l' = l0" using l'(1) l0 by (rule inj_onD)
    with l'(2) that bc(4) show False
      by (simp add: isReported_def out)
  qed
  have present: "\<exists>r \<in> set (rep_results rep).
             i_linkUrl r = l_url l \<and> i_status r = status si \<and> i_statusText r = statusText si
             \<and> i_priority r =
                 (case w_analyze w (l_text l0) (l_url l) (l_context l0) (status si) of
                    None \<Rightarrow> determinePriorityFromStatus (status si)
                  | Some a \<Rightarrow> if ai_priority a = [] then determinePriorityFromStatus (status si)
                              else ai_priority a)"
    if f: "status si \<noteq> Code 403" "\<not> isSuccessStatus (status si)"
      "\<not> (status_ge (status si) 300 \<and> status_lt (status si) 400)"
  proof -
    from f bc(5) have "isActualIssue si"
      by (auto simp: isActualIssue_def isSuccessStatus_def split: if_splits)
    moreover from f(2) have "status si \<noteq> Code 304"
      by (auto simp: isSuccessStatus_def)
    ultimately have "isReported ?net ?b ?ai l0"
      using bc(3) f(1) by (simp add: isReported_def out)
    then obtain k where k: "issueOf ?net ?b ?ai ?cap (linkAppearances ?links) k l0 \<in> set (results ?S)"
      using reported_link_has_issue [OF l0] by blast
    let ?r = "issueOf ?net ?b ?ai ?cap (linkAppearances ?links) k l0"
    from f(2) have "status si \<noteq> Code 200"
      by (auto simp: isSuccessStatus_def)
    then have an: "analysisOf ?net ?b ?ai l0
                     = w_analyze w (l_text l0) (l_url l) (l_context l0) (status si)"
      by (simp add: analysisOf_def needsAnalysis_def out u)
    have pr: "i_priority ?r =
                 (case w_analyze w (l_text l0) (l_url l) (l_context l0) (status si) of
                    None \<Rightarrow> determinePriorityFromStatus (status si)
                  | Some a \<Rightarrow> if ai_priority a = [] then determinePriorityFromStatus (status si)
                              else ai_priority a)"
      by (simp add: issueOf_def makeIssue_def str_or_def an out split: option.split)
    from k have "?r \<in> set (rep_results rep)"
      by (simp add: res sortByPriority_set)
    moreover have "i_linkUrl ?r = l_url l \<and> i_status ?r = status si \<and> i_statusText ?r = statusText si"
      by (simp add: issueOf_fields out u)
    ultimately show ?thesis using pr by blast
  qed
  have nf: "Code 404 \<noteq> Code 403 \<and> \<not> isSuccessStatus (Code 404)
            \<and> \<not> (status_ge (Code 404) 300 \<and> status_lt (Code 404) 400)"
    "determinePriorityFromStatus (Code 404) = ''Critical''"
    by (simp_all add: isSuccessStatus_def determinePriorityFromStatus_def)
  have four: "\<exists>r \<in> set (rep_results rep).
             i_linkUrl r = l_url l \<and> i_status r = Code 404
             \<and> i_priority r =
                 (case w_analyze w (l_text l0) (l_url l) (l_context l0) (Code 404) of
                    None \<Rightarrow> ''Critical''
                  | Some a \<Rightarrow> if ai_priority a = [] then ''Critical'' else ai_priority a)"
    if "status si = Code 404"
    using present that nf by (simp cong: option.case_cong if_cong) blast
  from bc(1) bc(5) absent present four first show ?thesis by blast
qed

theorem affiliate_outcomes_witness:
  "scan demo_world ''http://a.test/'' = Inr demo_report
   \<and> ''http://shop.test/goto/deal'' \<in> l_url ` set demo_links
   \<and> ''http://shop.test/goto/deal'' \<notin> i_linkUrl ` set (rep_results demo_report)
   \<and> ''http://shop.test/aff?id=1'' \<in> l_url ` set demo_links
   \<and> (\<exists>r \<in> set (rep_results demo_report).
         i_linkUrl r = ''http://shop.test/aff?id=1'' \<and> i_status r = Code 404
         \<and> i_priority r = ''Critical'')"
proof -
  let ?aff = "\<lparr>l_url = ''http://shop.test/aff?id=1'', l_text = ''Buy'', l_context = ''main'',
               l_type = LinkT, l_pageUrl = ''http://a.test/''\<rparr>"
  let ?deal = "\<lparr>l_url = ''http://shop.test/goto/deal'', l_text = ''Deal'', l_context = ''aside'',
               l_type = LinkT, l_pageUrl = ''http://a.test/''\<rparr>"
  have c: "crawlWebsite (w_hostname demo_world) (w_site demo_world) ''http://a.test/'' 50
             = Inr demo_crawl"
    by (simp add: demo_world_sel demo_crawl_value)
  have m: "?aff \<in> set (allLinks demo_crawl)" "?deal \<in> set (allLinks demo_crawl)"
    by (simp_all add: demo_crawl_def demo_links_def)
  have 1: "''http://shop.test/goto/deal'' \<notin> i_linkUrl ` set (rep_results demo_report)"
    using affiliate_outcomes [OF demo_scan c m(2)] demo_affiliate_checks(2)
    by (simp add: demo_world_sel)
  have 2: "\<exists>r \<in> set (rep_results demo_report).
         i_linkUrl r = ''http://shop.test/aff?id=1'' \<and> i_status r = Code 404
         \<and> i_priority r = ''Critical''"
    using affiliate_outcomes [OF demo_scan c m(1)] demo_affiliate_checks(1)
    by (auto simp: demo_world_sel demo_analyze_def)
  from 1 2 show ?thesis
    by (simp add: demo_scan) (simp add: demo_links_def)
qed

section \<open>Evidence capture\<close>

text \<open>
  C4 at a server error other than 500: the image that answers 502 is reported as an issue of
  type "Server Error (500+)", and no screenshot is attempted for it, since
  \<open>shouldTakeScreenshot\<close> tests the status against 500 only.
\<close>

theorem server_error_without_capture:
  "scan demo_world ''http://a.test/'' = Inr demo_report
   \<and> demo_issue_logo \<in> set (rep_results demo_report)
   \<and> i_linkUrl demo_issue_logo = ''http://a.test/logo.png''
   \<and> i_status demo_issue_logo = Code 502
   \<and> i_type demo_issue_logo = ''Server Error (500+)''
   \<and> i_screenshot demo_issue_logo = None
   \<and> trace (checkLinks (w_net demo_world) (w_browser demo_world) (w_analyze demo_world)
               (w_capture demo_world) demo_links) = demo_trace
   \<and> TakeErrorScreenshot ''http://a.test/'' ''Image'' ''http://a.test/logo.png'' \<notin> set demo_trace
   \<and> \<not> shouldTakeScreenshot (plain_info (Code 502) ''Bad Gateway'' 30)"
  by (simp add: demo_scan demo_member demo_world_sel demo_check_value)
     (simp add: demo_issue_logo_def demo_trace_def shouldTakeScreenshot_def plain_info_def)

section \<open>Crawl traversal\<close>

text \<open>
  Readings of the crawl's log: the URLs navigated to, the URLs marked visited, and whether
  every navigation in the log goes to a URL marked visited earlier in the log (\<open>seen\<close> holds
  the URLs marked so far).
\<close>

fun gotos :: "crawl_event list \<Rightarrow> string list" where
  "gotos [] = []"
| "gotos (Goto u # es) = u # gotos es"
| "gotos (Visit u # es) = gotos es"
| "gotos (Push p u # es) = gotos es"

fun visits :: "crawl_event list \<Rightarrow> string list" where
  "visits [] = []"
| "visits (Visit u # es) = u # visits es"
| "visits (Goto u # es) = visits es"
| "visits (Push p u # es) = visits es"

fun visitedBeforeGoto :: "string list \<Rightarrow> crawl_event list \<Rightarrow> bool" where
  "visitedBeforeGoto seen [] = True"
| "visitedBeforeGoto seen (Visit u # es) = visitedBeforeGoto (u # seen) es"
| "visitedBeforeGoto seen (Goto u # es) = (u \<in> set seen \<and> visitedBeforeGoto seen es)"
| "visitedBeforeGoto seen (Push p u # es) = visitedBeforeGoto seen es"

lemma gotos_append: "gotos (xs @ ys) = gotos xs @ gotos ys"
  by (induction xs rule: gotos.induct) auto

lemma visits_append: "visits (xs @ ys) = visits xs @ visits ys"
  by (induction xs rule: visits.induct) auto

lemma visitedBeforeGoto_append:
  "visitedBeforeGoto seen (xs @ ys) \<longleftrightarrow>
     visitedBeforeGoto seen xs \<and> visitedBeforeGoto (rev (visits xs) @ seen) ys"
  by (induction seen xs rule: visitedBeforeGoto.induct) auto

lemma visitedBeforeGoto_pushes: "visitedBeforeGoto seen (map (Push p) qs)"
  by (induction qs) auto

lemma gotos_pushes: "gotos (map (Push p) qs) = []"
  by (induction qs) auto

lemma visits_pushes: "visits (map (Push p) qs) = []"
  by (induction qs) auto

text \<open>What the pushes of one page leave behind.\<close>

lemma foldl_enqueue:
  "visited (foldl (enqueue p) t us) = visited t
   \<and> allLinks (foldl (enqueue p) t us) = allLinks t
   \<and> (\<exists>qs. events (foldl (enqueue p) t us) = events t @ map (Push p) qs \<and> set qs \<subseteq> set us)"
proof (induction us arbitrary: t)
  case Nil
  then show ?case by simp
next
  case (Cons u us)
  obtain qs where qs: "events (foldl (enqueue p) (enqueue p t u) us)
                         = events (enqueue p t u) @ map (Push p) qs" "set qs \<subseteq> set us"
    using Cons [of "enqueue p t u"] by blast
  have v: "visited (enqueue p t u) = visited t" "allLinks (enqueue p t u) = allLinks t"
    by (simp_all add: enqueue_def)
  have "events (enqueue p t u) = events t \<or> events (enqueue p t u) = events t @ [Push p u]"
    by (simp add: enqueue_def)
  then have "\<exists>qs'. events (foldl (enqueue p) (enqueue p t u) us) = events t @ map (Push p) qs'
                \<and> set qs' \<subseteq> set (u # us)"
  proof
    assume "events (enqueue p t u) = events t"
    with qs have "events (foldl (enqueue p) (enqueue p t u) us) = events t @ map (Push p) qs
                  \<and> set qs \<subseteq> set (u # us)" by auto
    then show ?thesis by blast
  next
    assume "events (enqueue p t u) = events t @ [Push p u]"
    with qs have "events (foldl (enqueue p) (enqueue p t u) us) = events t @ map (Push p) (u # qs)
                  \<and> set (u # qs) \<subseteq> set (u # us)" by auto
    then show ?thesis by blast
  qed
  with Cons [of "enqueue p t u"] v show ?case by simp
qed

text \<open>What one iteration does to the state, case by case.\<close>

lemma crawlStep_skip:
  assumes "toVisit s = u # rest" and "u \<in> set (visited s)"
  shows "crawlStep hostname site baseDomain s = s\<lparr>toVisit := rest\<rparr>"
  using assms by (simp add: crawlStep_def)

lemma crawlStep_failed:
  assumes "toVisit s = u # rest" and "u \<notin> set (visited s)" and "\<forall>ls. site u \<noteq> Loaded ls"
  shows "visited (crawlStep hostname site baseDomain s) = visited s @ [u]"
    and "toVisit (crawlStep hostname site baseDomain s) = rest"
    and "allLinks (crawlStep hostname site baseDomain s) = allLinks s"
    and "events (crawlStep hostname site baseDomain s) = events s @ [Visit u]
         \<or> events (crawlStep hostname site baseDomain s) = events s @ [Visit u, Goto u]"
  using assms by (cases "site u"; simp add: crawlStep_def crawlPage_def)+

lemma crawlStep_loaded:
  assumes "toVisit s = u # rest" and "u \<notin> set (visited s)" and "site u = Loaded ls"
  shows "visited (crawlStep hostname site baseDomain s) = visited s @ [u]"
    and "allLinks (crawlStep hostname site baseDomain s) = allLinks s @ map (withPageUrl u) ls"
    and "\<exists>qs. events (crawlStep hostname site baseDomain s)
                 = events s @ [Visit u, Goto u] @ map (Push u) qs
              \<and> set qs \<subseteq> set (map pl_url (filter (isInternal hostname baseDomain) ls))"
proof -
  let ?t = "s\<lparr>toVisit := rest, visited := visited s @ [u], events := events s @ [Visit u],
              allLinks := allLinks s @ map (withPageUrl u) ls,
              events := (events s @ [Visit u]) @ [Goto u]\<rparr>"
  let ?us = "map pl_url (filter (isInternal hostname baseDomain) ls)"
  have e: "crawlStep hostname site baseDomain s = foldl (enqueue u) ?t ?us"
    using assms by (simp add: crawlStep_def crawlPage_def)
  show "visited (crawlStep hostname site baseDomain s) = visited s @ [u]"
    and "allLinks (crawlStep hostname site baseDomain s) = allLinks s @ map (withPageUrl u) ls"
    and "\<exists>qs. events (crawlStep hostname site baseDomain s)
                 = events s @ [Visit u, Goto u] @ map (Push u) qs
              \<and> set qs \<subseteq> set (map pl_url (filter (isInternal hostname baseDomain) ls))"
    unfolding e using foldl_enqueue [of u ?t ?us] by simp_all
qed

text \<open>
  The loop invariant: at most \<open>maxPages\<close> pages are visited, each once; the log marks exactly
  the visited pages; navigations are distinct, follow their mark and go to visited pages; every
  pushed URL passed the filter and was pushed by a page that loaded; every stored reference
  comes from a page that loaded.
\<close>

definition crawl_inv :: "url_parser \<Rightarrow> site \<Rightarrow> string \<Rightarrow> nat \<Rightarrow> crawl_state \<Rightarrow> bool" where
  "crawl_inv hostname site baseDomain maxPages s \<longleftrightarrow>
     length (visited s) \<le> maxPages
     \<and> distinct (visited s)
     \<and> visits (events s) = visited s
     \<and> distinct (gotos (events s))
     \<and> set (gotos (events s)) \<subseteq> set (visited s)
     \<and> visitedBeforeGoto [] (events s)
     \<and> (\<forall>p u. Push p u \<in> set (events s) \<longrightarrow>
           \<not> isAffiliateLink u \<and> hostname u = Some baseDomain \<and> (\<exists>ls. site p = Loaded ls))
     \<and> (\<forall>l \<in> set (allLinks s). \<exists>ls. site (l_pageUrl l) = Loaded ls)"

lemma internal_url:
  assumes "u \<in> set (map pl_url (filter (isInternal hostname baseDomain) ls))"
  shows "\<not> isAffiliateLink u \<and> hostname u = Some baseDomain"
proof -
  from assms obtain pl where "isInternal hostname baseDomain pl" "pl_url pl = u" by auto
  then show ?thesis
    by (auto simp: isInternal_def split: if_splits option.splits)
qed

lemma crawl_invI:
  assumes "length (visited s) \<le> maxPages" and "distinct (visited s)"
    and "visits (events s) = visited s" and "distinct (gotos (events s))"
    and "set (gotos (events s)) \<subseteq> set (visited s)" and "visitedBeforeGoto [] (events s)"
    and "\<And>p u. Push p u \<in> set (events s) \<Longrightarrow>
           \<not> isAffiliateLink u \<and> hostname u = Some baseDomain \<and> (\<exists>ls. site p = Loaded ls)"
    and "\<And>l. l \<in> set (allLinks s) \<Longrightarrow> \<exists>ls. site (l_pageUrl l) = Loaded ls"
  shows "crawl_inv hostname site baseDomain maxPages s"
  unfolding crawl_inv_def using assms by blast

lemma crawl_invD:
  assumes "crawl_inv hostname site baseDomain maxPages s"
  shows "length (visited s) \<le> maxPages" and "distinct (visited s)"
    and "visits (events s) = visited s" and "distinct (gotos (events s))"
    and "set (gotos (events s)) \<subseteq> set (visited s)" and "visitedBeforeGoto [] (events s)"
    and "\<And>p u. Push p u \<in> set (events s) \<Longrightarrow>
           \<not> isAffiliateLink u \<and> hostname u = Some baseDomain \<and> (\<exists>ls. site p = Loaded ls)"
    and "\<And>l. l \<in> set (allLinks s) \<Longrightarrow> \<exists>ls. site (l_pageUrl l) = Loaded ls"
  using assms unfolding crawl_inv_def by blast+

lemma crawl_inv_step:
  assumes inv: "crawl_inv hostname site baseDomain maxPages s"
    and ne: "toVisit s \<noteq> []" and lt: "length (visited s) < maxPages"
  shows "crawl_inv hostname site baseDomain maxPages (crawlStep hostname site baseDomain s)"
proof -
  from ne obtain u rest where tv: "toVisit s = u # rest" by (cases "toVisit s") auto
  let ?s' = "crawlStep hostname site baseDomain s"
  note i = crawl_invD [OF inv]
  show ?thesis
  proof (cases "u \<in> set (visited s)")
    case True
    with tv have "?s' = s\<lparr>toVisit := rest\<rparr>" by (rule crawlStep_skip)
    with inv show ?thesis by (simp add: crawl_inv_def)
  next
    case new: False
    from i(5) new have ng: "u \<notin> set (gotos (events s))" by blast
    have v1: "length (visited s @ [u]) \<le> maxPages" using lt by simp
    have v2: "distinct (visited s @ [u])" using i(2) new by simp
    have vb: "visitedBeforeGoto [] (events s @ [Visit u, Goto u] @ map (Push u) qs)" for qs
      using i(6) by (simp add: visitedBeforeGoto_append visitedBeforeGoto_pushes)
    have vi: "visits (events s @ [Visit u, Goto u] @ map (Push u) qs) = visited s @ [u]" for qs
      using i(3) by (simp add: visits_append visits_pushes)
    have go: "gotos (events s @ [Visit u, Goto u] @ map (Push u) qs) = gotos (events s) @ [u]" for qs
      by (simp add: gotos_append gotos_pushes)
    have g1: "distinct (gotos (events s) @ [u])" using i(4) ng by simp
    have g2: "set (gotos (events s) @ [u]) \<subseteq> set (visited s @ [u])" using i(5) by auto
    show ?thesis
    proof (cases "\<exists>ls. site u = Loaded ls")
      case False
      then have f: "\<forall>ls. site u \<noteq> Loaded ls" by simp
      note st = crawlStep_failed [where s = s and u = u and rest = rest and site = site
          and hostname = hostname and baseDomain = baseDomain, OF tv new f]
      have ev: "set (events ?s') \<subseteq> set (events s) \<union> {Visit u, Goto u}"
        using st(4) by auto
      show ?thesis
      proof (rule crawl_invI)
        show "length (visited ?s') \<le> maxPages" using v1 st(1) by simp
        show "distinct (visited ?s')" using v2 st(1) by simp
        show "visits (events ?s') = visited ?s'"
          using st(4) st(1) i(3) by (auto simp: visits_append)
        show "distinct (gotos (events ?s'))"
          using st(4) i(4) ng by (auto simp: gotos_append)
        show "set (gotos (events ?s')) \<subseteq> set (visited ?s')"
          using st(4) st(1) i(5) by (auto simp: gotos_append)
        show "visitedBeforeGoto [] (events ?s')"
          using st(4) i(6) by (auto simp: visitedBeforeGoto_append)
        show "\<not> isAffiliateLink t \<and> hostname t = Some baseDomain \<and> (\<exists>ls. site p = Loaded ls)"
          if "Push p t \<in> set (events ?s')" for p t
        proof -
          from that ev have "Push p t \<in> set (events s)" by auto
          then show ?thesis by (rule i(7))
        qed
        show "\<exists>ls. site (l_pageUrl l) = Loaded ls" if "l \<in> set (allLinks ?s')" for l
          using that st(3) i(8) by simp
      qed
    next
      case True
      then obtain ls where ld: "site u = Loaded ls" by blast
      note st = crawlStep_loaded [where s = s and u = u and rest = rest and site = site
          and hostname = hostname and baseDomain = baseDomain and ls = ls, OF tv new ld]
      from st(3) obtain qs where
        e: "events ?s' = events s @ [Visit u, Goto u] @ map (Push u) qs"
        and qs: "set qs \<subseteq> set (map pl_url (filter (isInternal hostname baseDomain) ls))"
        by blast
      show ?thesis
      proof (rule crawl_invI)
        show "length (visited ?s') \<le> maxPages" using v1 st(1) by simp
        show "distinct (visited ?s')" using v2 st(1) by simp
        show "visits (events ?s') = visited ?s'" unfolding e st(1) by (rule vi)
        show "distinct (gotos (events ?s'))" unfolding e go by (rule g1)
        show "set (gotos (events ?s')) \<subseteq> set (visited ?s')" unfolding e go st(1) by (rule g2)
        show "visitedBeforeGoto [] (events ?s')" unfolding e by (rule vb)
        show "\<not> isAffiliateLink t \<and> hostname t = Some baseDomain \<and> (\<exists>ls. site p = Loaded ls)"
          if "Push p t \<in> set (events ?s')" for p t
        proof -
          from that have "Push p t \<in> set (events s) \<or> (p = u \<and> t \<in> set qs)"
            unfolding e by auto
          then show ?thesis
          proof
            assume "Push p t \<in> set (events s)"
            then show ?thesis by (rule i(7))
          next
            assume "p = u \<and> t \<in> set qs"
            then have "p = u" "t \<in> set (map pl_url (filter (isInternal hostname baseDomain) ls))"
              using qs by auto
            with internal_url [of t hostname baseDomain ls] ld show ?thesis by simp
          qed
        qed
        show "\<exists>ls. site (l_pageUrl l) = Loaded ls" if "l \<in> set (allLinks ?s')" for l
        proof -
          from that have "l \<in> set (allLinks s) \<or> l_pageUrl l = u"
            unfolding st(2) by (auto simp: withPageUrl_def)
          then show ?thesis using i(8) ld by auto
        qed
      qed
    qed
  qed
qed

declare crawlLoop.simps [simp del]

lemma crawl_inv_loop:
  "crawl_inv hostname site baseDomain maxPages s \<Longrightarrow>
     crawl_inv hostname site baseDomain maxPages (crawlLoop hostname site baseDomain maxPages s)"
proof (induction hostname site baseDomain maxPages s rule: crawlLoop.induct)
  case (1 hostname site baseDomain maxPages s)
  note eq = crawlLoop.simps [of hostname site baseDomain maxPages s]
  show ?case
  proof (cases "toVisit s \<noteq> [] \<and> length (visited s) < maxPages")
    case True
    then have "crawl_inv hostname site baseDomain maxPages (crawlStep hostname site baseDomain s)"
      using "1.prems" crawl_inv_step by blast
    with True have "crawl_inv hostname site baseDomain maxPages
                      (crawlLoop hostname site baseDomain maxPages (crawlStep hostname site baseDomain s))"
      by (rule "1.IH")
    moreover have "crawlLoop hostname site baseDomain maxPages s
                     = crawlLoop hostname site baseDomain maxPages (crawlStep hostname site baseDomain s)"
      using eq True by auto
    ultimately show ?thesis by (simp only:)
  next
    case False
    then have "crawlLoop hostname site baseDomain maxPages s = s"
      using eq by auto
    with "1.prems" show ?thesis by (simp only:)
  qed
qed

lemma crawl_inv_result:
  assumes "crawlWebsite hostname site domain maxPages = Inr c"
  shows "\<exists>baseDomain. hostname domain = Some baseDomain
           \<and> crawl_inv hostname site baseDomain maxPages c"
proof -
  from assms obtain b where b: "hostname domain = Some b"
    and c: "c = crawlLoop hostname site b maxPages
                  \<lparr>visited = [], toVisit = [domain], allLinks = [], events = []\<rparr>"
    by (auto simp: crawlWebsite_def split: option.splits)
  have "crawl_inv hostname site b maxPages
          \<lparr>visited = [], toVisit = [domain], allLinks = [], events = []\<rparr>"
    by (simp add: crawl_inv_def)
  then have "crawl_inv hostname site b maxPages c"
    unfolding c by (rule crawl_inv_loop)
  with b show ?thesis by blast
qed

section \<open>Bounds of the crawl\<close>

text \<open>
  C6: in every crawl, no URL is navigated to twice and every navigation goes to a page of the
  visited set, the visited set never holds more than \<open>maxPages\<close> pages, and every URL pushed on
  the queue is not affiliate-class and has the hostname of the root URL.
\<close>

theorem crawl_bounds:
  assumes "crawlWebsite hostname site domain maxPages = Inr c"
  shows "distinct (gotos (events c))
         \<and> set (gotos (events c)) \<subseteq> set (visited c)
         \<and> distinct (visited c)
         \<and> length (visited c) \<le> maxPages
         \<and> (\<forall>p u. Push p u \<in> set (events c) \<longrightarrow>
               \<not> isAffiliateLink u \<and> hostname u = hostname domain)"
proof -
  from assms obtain b where b: "hostname domain = Some b"
    and inv: "crawl_inv hostname site b maxPages c"
    using crawl_inv_result by blast
  note i = crawl_invD [OF inv]
  have "\<not> isAffiliateLink u \<and> hostname u = hostname domain" if "Push p u \<in> set (events c)" for p u
    using i(7) [OF that] b by simp
  with i(1,2,4,5) show ?thesis by blast
qed

theorem crawl_bounds_witness:
  "crawlWebsite demo_hostname demo_site ''http://a.test/'' 2 =
     Inr \<lparr>visited = [''http://a.test/'', ''http://a.test/gone''],
          toVisit = [''http://a.test/about''],
          allLinks = take 6 demo_links,
          events = take 6 demo_events\<rparr>
   \<and> length [''http://a.test/'', ''http://a.test/gone''] \<le> (2 :: nat)
   \<and> Push ''http://a.test/'' ''http://a.test/about'' \<in> set (take 6 demo_events)
   \<and> \<not> isAffiliateLink ''http://a.test/about''
   \<and> demo_hostname ''http://a.test/about'' = demo_hostname ''http://a.test/''
   \<and> distinct (gotos (take 6 demo_events))"
proof -
  have c: "crawlWebsite demo_hostname demo_site ''http://a.test/'' 2 =
     Inr \<lparr>visited = [''http://a.test/'', ''http://a.test/gone''],
          toVisit = [''http://a.test/about''],
          allLinks = take 6 demo_links,
          events = take 6 demo_events\<rparr>"
    by code_simp
  have p: "Push ''http://a.test/'' ''http://a.test/about'' \<in> set (take 6 demo_events)"
    by (simp add: demo_events_def)
  from crawl_bounds [OF c] p show ?thesis
    using c by auto
qed

section \<open>Pages whose navigation fails\<close>

text \<open>
  C10: every navigation in the crawl's log goes to a URL marked visited earlier in the log, and
  the marked URLs are exactly the returned pages, at most \<open>maxPages\<close> of them. A page that does
  not load (its tab, its navigation or its evaluation fails) is the page of no stored reference
  and pushes nothing on the queue; the iteration that dequeues it appends it to the visited
  set, leaves the references alone and only removes it from the queue.
\<close>

theorem failed_page_counts:
  assumes "crawlWebsite hostname site domain maxPages = Inr c"
  shows "visitedBeforeGoto [] (events c)
         \<and> visits (events c) = visited c
         \<and> set (gotos (events c)) \<subseteq> set (visited c)
         \<and> length (visited c) \<le> maxPages
         \<and> ((\<forall>ls. site v \<noteq> Loaded ls) \<longrightarrow>
               (\<forall>l \<in> set (allLinks c). l_pageUrl l \<noteq> v) \<and> (\<forall>t. Push v t \<notin> set (events c)))
         \<and> (toVisit s = u # rest \<and> u \<notin> set (visited s) \<and> (\<forall>ls. site u \<noteq> Loaded ls) \<longrightarrow>
               visited (crawlStep hostname site b s) = visited s @ [u]
               \<and> toVisit (crawlStep hostname site b s) = rest
               \<and> allLinks (crawlStep hostname site b s) = allLinks s
               \<and> (events (crawlStep hostname site b s) = events s @ [Visit u]
                   \<or> events (crawlStep hostname site b s) = events s @ [Visit u, Goto u]))"
proof -
  from assms obtain b' where inv: "crawl_inv hostname site b' maxPages c"
    using crawl_inv_result by blast
  note i = crawl_invD [OF inv]
  have 1: "(\<forall>l \<in> set (allLinks c). l_pageUrl l \<noteq> v) \<and> (\<forall>t. Push v t \<notin> set (events c))"
    if "\<forall>ls. site v \<noteq> Loaded ls"
    using that i(7) i(8) by blast
  have 2: "visited (crawlStep hostname site b s) = visited s @ [u]
               \<and> toVisit (crawlStep hostname site b s) = rest
               \<and> allLinks (crawlStep hostname site b s) = allLinks s
               \<and> (events (crawlStep hostname site b s) = events s @ [Visit u]
                   \<or> events (crawlStep hostname site b s) = events s @ [Visit u, Goto u])"
    if "toVisit s = u # rest \<and> u \<notin> set (visited s) \<and> (\<forall>ls. site u \<noteq> Loaded ls)"
    using crawlStep_failed [where s = s and u = u and rest = rest and site = site
        and hostname = hostname and baseDomain = b] that
    by blast
  from i(1,3,5,6) 1 2 show ?thesis by blast
qed

theorem failed_page_counts_witness:
  "crawlWebsite demo_hostname demo_site ''http://a.test/'' 50 = Inr demo_crawl
   \<and> demo_site ''http://a.test/slow'' = GotoFails
   \<and> ''http://a.test/slow'' \<in> set (visited demo_crawl)
   \<and> Goto ''http://a.test/slow'' \<in> set (events demo_crawl)
   \<and> length (visited demo_crawl) \<le> 50
   \<and> ''http://a.test/slow'' \<notin> l_pageUrl ` set (allLinks demo_crawl)
   \<and> visited (crawlStep demo_hostname demo_site ''a.test''
                 \<lparr>visited = [''http://a.test/''], toVisit = [''http://a.test/slow''],
                  allLinks = [], events = []\<rparr>)
       = [''http://a.test/'', ''http://a.test/slow'']"
proof -
  have f: "\<forall>ls. demo_site ''http://a.test/slow'' \<noteq> Loaded ls"
    "demo_site ''http://a.test/slow'' = GotoFails"
    by (simp_all add: demo_site_def)
  have m: "''http://a.test/slow'' \<in> set (visited demo_crawl)"
    "Goto ''http://a.test/slow'' \<in> set (events demo_crawl)"
    by (simp_all add: demo_crawl_def demo_pages_def demo_events_def)
  let ?s = "\<lparr>visited = [''http://a.test/''], toVisit = [''http://a.test/slow''],
             allLinks = [], events = []\<rparr>"
  have s: "toVisit ?s = ''http://a.test/slow'' # [] \<and> ''http://a.test/slow'' \<notin> set (visited ?s)"
    by simp
  note T = failed_page_counts [OF demo_crawl_value, where v = "''http://a.test/slow''"
      and s = ?s and u = "''http://a.test/slow''" and rest = "[]" and b = "''a.test''"]
  from T f(1) have a: "\<forall>l \<in> set (allLinks demo_crawl). l_pageUrl l \<noteq> ''http://a.test/slow''"
    by blast
  from T f(1) s have b: "visited (crawlStep demo_hostname demo_site ''a.test'' ?s)
                          = visited ?s @ [''http://a.test/slow'']"
    by blast
  from T have l: "length (visited demo_crawl) \<le> 50" by blast
  from a have a': "''http://a.test/slow'' \<notin> l_pageUrl ` set (allLinks demo_crawl)" by auto
  from b have b': "visited (crawlStep demo_hostname demo_site ''a.test'' ?s)
                     = [''http://a.test/'', ''http://a.test/slow'']" by simp
  from demo_crawl_value f(2) m l a' b' show ?thesis by blast
qed

section \<open>Rounding to a double\<close>


lemma roundHalfEven_of_int: "roundHalfEven (of_int k) = k"
  by (simp add: roundHalfEven_def)


lemma roundHalfEven_le_int:
  assumes "x \<le> of_int k" shows "roundHalfEven x \<le> k"
proof (cases "x = of_int k")
  case True
  then show ?thesis by (simp add: roundHalfEven_of_int)
next
  case False
  with assms have "x < of_int k" by simp
  then have "\<lfloor>x\<rfloor> < k" by (simp add: floor_less_iff)
  then show ?thesis by (auto simp: roundHalfEven_def Let_def)
qed













section \<open>Health score\<close>


















end
